theory Spec2Isabelle
  imports Complex_Main "HOL-Library.Monad_Syntax"
begin

section \<open>Data model (src/models/Order.js, src/models/Trade.js)\<close>

text \<open>
  JavaScript numbers are modelled as exact rationals: every finite double is a rational,
  and comparisons of doubles are comparisons of those rationals. The rounding of the
  arithmetic operations is outside this model. A price is \<open>null\<close> for market orders
  (\<open>price ? parseFloat(price) : null\<close>), hence \<open>rat option\<close>; the relational operators
  and the subtraction in the sort comparators coerce \<open>null\<close> to \<open>0\<close>.
\<close>

datatype side = Buy | Sell

datatype otype = Limit | Market

datatype status = Open | PartiallyFilled | Filled | Cancelled | Rejected

type_synonym price = "rat option"

fun num :: "price \<Rightarrow> rat" where
  "num None = 0"
| "num (Some x) = x"

record order =
  order_id :: string
  client_id :: string
  instrument :: string
  side :: side
  otype :: otype
  price :: price
  quantity :: rat
  filled_quantity :: rat
  status :: status
  idempotency_key :: "string option"
  created_at :: nat

record trade =
  buy_order_id :: string
  sell_order_id :: string
  trade_instrument :: string
  trade_price :: price
  trade_quantity :: rat

datatype error =
  CannotCancel string status
| OrderNotFound string
| DbError string
| TypeError string

definition remaining_quantity :: "order \<Rightarrow> rat" where
  "remaining_quantity ord = quantity ord - filled_quantity ord"

definition is_filled :: "order \<Rightarrow> bool" where
  "is_filled ord = (filled_quantity ord \<ge> quantity ord)"

definition is_open :: "order \<Rightarrow> bool" where
  "is_open ord = (status ord = Open \<or> status ord = PartiallyFilled)"

definition fill :: "rat \<Rightarrow> order \<Rightarrow> order" where
  "fill q ord =
     (let o1 = ord\<lparr>filled_quantity := filled_quantity ord + q\<rparr>
      in if is_filled o1 then o1\<lparr>status := Filled\<rparr>
         else if filled_quantity o1 > 0 then o1\<lparr>status := PartiallyFilled\<rparr>
         else o1)"

definition cancel :: "order \<Rightarrow> error + order" where
  "cancel ord =
     (if \<not> is_open ord then Inl (CannotCancel (order_id ord) (status ord))
      else Inr (ord\<lparr>status := Cancelled\<rparr>))"

definition reject :: "string \<Rightarrow> order \<Rightarrow> order" where
  "reject reason ord = ord\<lparr>status := Rejected\<rparr>"


section \<open>Order book (src/matching/MatchingEngine.js, class OrderBook)\<close>

text \<open>
  Order objects are shared between the book's level arrays, its index and the caller, and
  are mutated in place by \<open>fill\<close>, \<open>cancel\<close> and \<open>reject\<close>. The objects live in a heap
  (a list of orders); a reference is an index into it, and the book holds references.
  References are handed out in creation order.
\<close>

type_synonym ref = nat

record orderBook =
  bids :: "price \<rightharpoonup> ref list"
  bidPrices :: "price list"
  asks :: "price \<rightharpoonup> ref list"
  askPrices :: "price list"
  orders :: "string \<rightharpoonup> ref"

definition newOrderBook :: orderBook where
  "newOrderBook = \<lparr>bids = Map.empty, bidPrices = [], asks = Map.empty, askPrices = [],
     orders = Map.empty\<rparr>"

text \<open>
  \<open>Array.prototype.sort\<close> is stable; with the comparator \<open>(a, b) => b - a\<close> it is the
  stable sort by the key \<open>- num\<close>, and with \<open>(a, b) => a - b\<close> by the key \<open>num\<close>.
\<close>

definition addBid :: "order list \<Rightarrow> ref \<Rightarrow> orderBook \<Rightarrow> orderBook" where
  "addBid h r b =
     (let p = price (h ! r)
      in case bids b p of
           None \<Rightarrow> b\<lparr>bids := (bids b)(p \<mapsto> [r]),
                      bidPrices := sort_key (\<lambda>a. - num a) (bidPrices b @ [p])\<rparr>
         | Some l \<Rightarrow> b\<lparr>bids := (bids b)(p \<mapsto> l @ [r])\<rparr>)"

definition addAsk :: "order list \<Rightarrow> ref \<Rightarrow> orderBook \<Rightarrow> orderBook" where
  "addAsk h r b =
     (let p = price (h ! r)
      in case asks b p of
           None \<Rightarrow> b\<lparr>asks := (asks b)(p \<mapsto> [r]),
                      askPrices := sort_key num (askPrices b @ [p])\<rparr>
         | Some l \<Rightarrow> b\<lparr>asks := (asks b)(p \<mapsto> l @ [r])\<rparr>)"

definition addOrder :: "order list \<Rightarrow> ref \<Rightarrow> orderBook \<Rightarrow> orderBook" where
  "addOrder h r b =
     (let b1 = b\<lparr>orders := (orders b)(order_id (h ! r) \<mapsto> r)\<rparr>
      in if side (h ! r) = Buy then addBid h r b1 else addAsk h r b1)"

fun findIndex :: "('a \<Rightarrow> bool) \<Rightarrow> 'a list \<Rightarrow> nat option" where
  "findIndex P [] = None"
| "findIndex P (x # xs) = (if P x then Some 0 else map_option Suc (findIndex P xs))"

definition splice1 :: "nat \<Rightarrow> 'a list \<Rightarrow> 'a list" where
  "splice1 i l = take i l @ drop (Suc i) l"

definition removeBid :: "order list \<Rightarrow> ref \<Rightarrow> orderBook \<Rightarrow> orderBook" where
  "removeBid h r b =
     (let p = price (h ! r)
      in case bids b p of
           None \<Rightarrow> b
         | Some l \<Rightarrow>
             (case findIndex (\<lambda>x. order_id (h ! x) = order_id (h ! r)) l of
                None \<Rightarrow> b
              | Some i \<Rightarrow>
                  (let l' = splice1 i l
                   in if l' = []
                      then b\<lparr>bids := (bids b)(p := None),
                             bidPrices := filter (\<lambda>q. q \<noteq> p) (bidPrices b)\<rparr>
                      else b\<lparr>bids := (bids b)(p \<mapsto> l')\<rparr>)))"

definition removeAsk :: "order list \<Rightarrow> ref \<Rightarrow> orderBook \<Rightarrow> orderBook" where
  "removeAsk h r b =
     (let p = price (h ! r)
      in case asks b p of
           None \<Rightarrow> b
         | Some l \<Rightarrow>
             (case findIndex (\<lambda>x. order_id (h ! x) = order_id (h ! r)) l of
                None \<Rightarrow> b
              | Some i \<Rightarrow>
                  (let l' = splice1 i l
                   in if l' = []
                      then b\<lparr>asks := (asks b)(p := None),
                             askPrices := filter (\<lambda>q. q \<noteq> p) (askPrices b)\<rparr>
                      else b\<lparr>asks := (asks b)(p \<mapsto> l')\<rparr>)))"

definition removeOrder :: "order list \<Rightarrow> string \<Rightarrow> orderBook \<Rightarrow> orderBook" where
  "removeOrder h oid b =
     (case orders b oid of
        None \<Rightarrow> b
      | Some r \<Rightarrow>
          (let b1 = b\<lparr>orders := (orders b)(oid := None)\<rparr>
           in if side (h ! r) = Buy then removeBid h r b1 else removeAsk h r b1))"

definition getBestBid :: "orderBook \<Rightarrow> ref option" where
  "getBestBid b =
     (case bidPrices b of
        [] \<Rightarrow> None
      | p # _ \<Rightarrow> (case bids b p of None \<Rightarrow> None | Some [] \<Rightarrow> None | Some (r # _) \<Rightarrow> Some r))"

definition getBestAsk :: "orderBook \<Rightarrow> ref option" where
  "getBestAsk b =
     (case askPrices b of
        [] \<Rightarrow> None
      | p # _ \<Rightarrow> (case asks b p of None \<Rightarrow> None | Some [] \<Rightarrow> None | Some (r # _) \<Rightarrow> Some r))"


section \<open>Matching engine (src/matching/MatchingEngine.js, class MatchingEngine)\<close>

text \<open>
  The engine's state: the heap of order objects, the book, the engine's trade array, and
  the calls made to the two callbacks \<open>onTrade\<close> and \<open>onOrderUpdate\<close>, in call order,
  each with the value its argument had at the call. Trade ids and timestamps are not
  modelled. Commands are run one after the other, so \<open>lock\<close> is false whenever
  \<open>processOrder\<close> is entered and \<open>pendingOrders\<close> stays empty; both are left out.
\<close>

datatype callback = OnTrade trade | OnOrderUpdate order

record engine =
  engine_instrument :: string
  heap :: "order list"
  orderBook :: orderBook
  trades :: "trade list"
  callbacks :: "callback list"

definition newEngine :: "string \<Rightarrow> engine" where
  "newEngine i = \<lparr>engine_instrument = i, heap = [], orderBook = newOrderBook, trades = [],
     callbacks = []\<rparr>"

definition executeTrade :: "ref \<Rightarrow> ref \<Rightarrow> price \<Rightarrow> rat \<Rightarrow> engine \<Rightarrow> engine" where
  "executeTrade buyOrder sellOrder p q st =
     (let h1 = (heap st)[buyOrder := fill q (heap st ! buyOrder)];
          h2 = h1[sellOrder := fill q (h1 ! sellOrder)];
          t = \<lparr>buy_order_id = order_id (h2 ! buyOrder),
               sell_order_id = order_id (h2 ! sellOrder),
               trade_instrument = engine_instrument st,
               trade_price = p, trade_quantity = q\<rparr>;
          b1 = (if is_filled (h2 ! buyOrder)
                then removeOrder h2 (order_id (h2 ! buyOrder)) (orderBook st)
                else orderBook st);
          b2 = (if is_filled (h2 ! sellOrder)
                then removeOrder h2 (order_id (h2 ! sellOrder)) b1
                else b1)
      in st\<lparr>heap := h2, orderBook := b2, trades := trades st @ [t],
            callbacks := callbacks st
              @ [OnTrade t, OnOrderUpdate (h2 ! buyOrder), OnOrderUpdate (h2 ! sellOrder)]\<rparr>)"

text \<open>
  The four \<open>while\<close> loops of \<open>_matchMarketOrder\<close> and \<open>_matchLimitOrder\<close>. A loop that
  does not stop has the value \<open>None\<close>.
\<close>

partial_function (option) marketBuyLoop :: "ref \<Rightarrow> engine \<Rightarrow> engine option" where
  "marketBuyLoop r st =
     (if 0 < remaining_quantity (heap st ! r) \<and> askPrices (orderBook st) \<noteq> []
      then (case getBestAsk (orderBook st) of
              None \<Rightarrow> Some st
            | Some bestAsk \<Rightarrow>
                marketBuyLoop r
                  (executeTrade r bestAsk (price (heap st ! bestAsk))
                     (min (remaining_quantity (heap st ! r))
                          (remaining_quantity (heap st ! bestAsk))) st))
      else Some st)"

partial_function (option) marketSellLoop :: "ref \<Rightarrow> engine \<Rightarrow> engine option" where
  "marketSellLoop r st =
     (if 0 < remaining_quantity (heap st ! r) \<and> bidPrices (orderBook st) \<noteq> []
      then (case getBestBid (orderBook st) of
              None \<Rightarrow> Some st
            | Some bestBid \<Rightarrow>
                marketSellLoop r
                  (executeTrade bestBid r (price (heap st ! bestBid))
                     (min (remaining_quantity (heap st ! r))
                          (remaining_quantity (heap st ! bestBid))) st))
      else Some st)"

partial_function (option) limitBuyLoop :: "ref \<Rightarrow> engine \<Rightarrow> engine option" where
  "limitBuyLoop r st =
     (if 0 < remaining_quantity (heap st ! r) \<and> askPrices (orderBook st) \<noteq> []
      then (case getBestAsk (orderBook st) of
              None \<Rightarrow> Some st
            | Some bestAsk \<Rightarrow>
                if num (price (heap st ! bestAsk)) > num (price (heap st ! r)) then Some st
                else limitBuyLoop r
                  (executeTrade r bestAsk (price (heap st ! bestAsk))
                     (min (remaining_quantity (heap st ! r))
                          (remaining_quantity (heap st ! bestAsk))) st))
      else Some st)"

partial_function (option) limitSellLoop :: "ref \<Rightarrow> engine \<Rightarrow> engine option" where
  "limitSellLoop r st =
     (if 0 < remaining_quantity (heap st ! r) \<and> bidPrices (orderBook st) \<noteq> []
      then (case getBestBid (orderBook st) of
              None \<Rightarrow> Some st
            | Some bestBid \<Rightarrow>
                if num (price (heap st ! bestBid)) < num (price (heap st ! r)) then Some st
                else limitSellLoop r
                  (executeTrade bestBid r (price (heap st ! bestBid))
                     (min (remaining_quantity (heap st ! r))
                          (remaining_quantity (heap st ! bestBid))) st))
      else Some st)"

declare marketBuyLoop.simps [code]
declare marketSellLoop.simps [code]
declare limitBuyLoop.simps [code]
declare limitSellLoop.simps [code]

definition matchMarketOrder :: "ref \<Rightarrow> engine \<Rightarrow> engine option" where
  "matchMarketOrder r st =
     do {
       st1 \<leftarrow> (if side (heap st ! r) = Buy then marketBuyLoop r st else marketSellLoop r st);
       Some (if 0 < remaining_quantity (heap st1 ! r)
             then (let h = (heap st1)[r := reject ''Insufficient liquidity'' (heap st1 ! r)]
                   in st1\<lparr>heap := h, callbacks := callbacks st1 @ [OnOrderUpdate (h ! r)]\<rparr>)
             else st1)
     }"

definition matchLimitOrder :: "ref \<Rightarrow> engine \<Rightarrow> engine option" where
  "matchLimitOrder r st =
     (if side (heap st ! r) = Buy then limitBuyLoop r st else limitSellLoop r st)"

definition matchOrder :: "ref \<Rightarrow> engine \<Rightarrow> engine option" where
  "matchOrder r st =
     do {
       st1 \<leftarrow> (case otype (heap st ! r) of
                 Market \<Rightarrow> matchMarketOrder r st
               | Limit \<Rightarrow> matchLimitOrder r st);
       Some (if is_open (heap st1 ! r)
             then st1\<lparr>orderBook := addOrder (heap st1) r (orderBook st1),
                      callbacks := callbacks st1 @ [OnOrderUpdate (heap st1 ! r)]\<rparr>
             else st1)
     }"

text \<open>
  \<open>processOrder\<close> is handed an order object that its caller has just constructed: the
  object gets the next reference.
\<close>

definition processOrder :: "order \<Rightarrow> engine \<Rightarrow> engine option" where
  "processOrder ord st = matchOrder (length (heap st)) (st\<lparr>heap := heap st @ [ord]\<rparr>)"

text \<open>\<open>cancelOrder\<close> returns the order object, or throws; a throw is the left summand.\<close>

definition cancelOrder :: "string \<Rightarrow> engine \<Rightarrow> error + (engine \<times> ref)" where
  "cancelOrder oid st =
     (case orders (orderBook st) oid of
        None \<Rightarrow> Inl (OrderNotFound oid)
      | Some r \<Rightarrow>
          (case cancel (heap st ! r) of
             Inl e \<Rightarrow> Inl e
           | Inr ord' \<Rightarrow>
               (let h = (heap st)[r := ord']
                in Inr (st\<lparr>heap := h, orderBook := removeOrder h oid (orderBook st)\<rparr>, r))))"

text \<open>A command sequence on one engine; a cancel that throws leaves the engine as it was.\<close>

datatype command = Submit order | Cancel string

fun step :: "engine \<Rightarrow> command \<Rightarrow> engine option" where
  "step st (Submit ord) = processOrder ord st"
| "step st (Cancel oid) =
     (case cancelOrder oid st of Inl e \<Rightarrow> Some st | Inr (st', r) \<Rightarrow> Some st')"

fun run :: "engine \<Rightarrow> command list \<Rightarrow> engine option" where
  "run st [] = Some st"
| "run st (c # cs) = do { st1 \<leftarrow> step st c; run st1 cs }"


section \<open>Sequences of operations on one order\<close>







definition order_consistent :: "order \<Rightarrow> bool" where
  "order_consistent ord =
     (0 \<le> filled_quantity ord \<and> filled_quantity ord \<le> quantity ord \<and> 0 < quantity ord
      \<and> (status ord = Open \<longrightarrow> filled_quantity ord = 0)
      \<and> (status ord = PartiallyFilled \<longrightarrow>
            0 < filled_quantity ord \<and> filled_quantity ord < quantity ord)
      \<and> ((status ord = Filled) = (filled_quantity ord = quantity ord)))"

definition example_order :: order where
  "example_order = \<lparr>order_id = ''order-1'', client_id = ''client-1'',
     instrument = ''BTC-USD'', side = Buy, otype = Limit, price = Some 70000, quantity = 1,
     filled_quantity = 0, status = Open, idempotency_key = None, created_at = 0\<rparr>"


section \<open>Invariants of the book and of the engine\<close>

definition level_wf :: "order list \<Rightarrow> side \<Rightarrow> (string \<rightharpoonup> ref) \<Rightarrow> price \<Rightarrow> ref list \<Rightarrow> bool" where
  "level_wf h sd idx p l =
     (l \<noteq> [] \<and> sorted l \<and> distinct l
      \<and> (\<forall>r\<in>set l. r < length h \<and> price (h ! r) = p \<and> side (h ! r) = sd
            \<and> idx (order_id (h ! r)) = Some r))"

definition half_wf ::
  "order list \<Rightarrow> side \<Rightarrow> (string \<rightharpoonup> ref) \<Rightarrow> (price \<Rightarrow> rat) \<Rightarrow> (price \<rightharpoonup> ref list) \<Rightarrow> price list \<Rightarrow> bool" where
  "half_wf h sd idx key m ps =
     (distinct ps \<and> sorted (map key ps) \<and> dom m = set ps
      \<and> (\<forall>p\<in>set ps. \<forall>l. m p = Some l \<longrightarrow> level_wf h sd idx p l))"

definition index_wf :: "order list \<Rightarrow> orderBook \<Rightarrow> bool" where
  "index_wf h b =
     (\<forall>oid r. orders b oid = Some r \<longrightarrow>
        r < length h \<and> order_id (h ! r) = oid
        \<and> (\<exists>l. (if side (h ! r) = Buy then bids b else asks b) (price (h ! r)) = Some l
                 \<and> r \<in> set l))"

definition book_wf :: "order list \<Rightarrow> orderBook \<Rightarrow> bool" where
  "book_wf h b =
     (half_wf h Buy (orders b) (\<lambda>a. - num a) (bids b) (bidPrices b)
      \<and> half_wf h Sell (orders b) num (asks b) (askPrices b)
      \<and> index_wf h b)"

definition static_eq :: "order list \<Rightarrow> order list \<Rightarrow> bool" where
  "static_eq h h' =
     (length h' = length h
      \<and> (\<forall>x. order_id (h' ! x) = order_id (h ! x))
      \<and> (\<forall>x. price (h' ! x) = price (h ! x))
      \<and> (\<forall>x. side (h' ! x) = side (h ! x))
      \<and> (\<forall>x. quantity (h' ! x) = quantity (h ! x))
      \<and> (\<forall>x. otype (h' ! x) = otype (h ! x)))"

definition uncrossed :: "orderBook \<Rightarrow> bool" where
  "uncrossed b = (\<forall>bp\<in>set (bidPrices b). \<forall>ap\<in>set (askPrices b). num bp < num ap)"

definition engine_inv :: "engine \<Rightarrow> bool" where
  "engine_inv st =
     (book_wf (heap st) (orderBook st)
      \<and> (\<forall>oid r. orders (orderBook st) oid = Some r \<longrightarrow> is_open (heap st ! r))
      \<and> (\<forall>x<length (heap st). order_consistent (heap st ! x))
      \<and> uncrossed (orderBook st))"

definition incoming_ok :: "ref \<Rightarrow> engine \<Rightarrow> bool" where
  "incoming_ok r st =
     (r < length (heap st) \<and> orders (orderBook st) (order_id (heap st ! r)) = None
      \<and> status (heap st ! r) \<in> {Open, PartiallyFilled, Filled})"

definition open_count :: "order list \<Rightarrow> nat" where
  "open_count h = length (filter is_open h)"

definition buyStep :: "ref \<Rightarrow> engine \<Rightarrow> engine" where
  "buyStep r st =
     (case getBestAsk (orderBook st) of
        None \<Rightarrow> st
      | Some a \<Rightarrow>
          executeTrade r a (price (heap st ! a))
            (min (remaining_quantity (heap st ! r)) (remaining_quantity (heap st ! a))) st)"

definition sellStep :: "ref \<Rightarrow> engine \<Rightarrow> engine" where
  "sellStep r st =
     (case getBestBid (orderBook st) of
        None \<Rightarrow> st
      | Some a \<Rightarrow>
          executeTrade a r (price (heap st ! a))
            (min (remaining_quantity (heap st ! r)) (remaining_quantity (heap st ! a))) st)"

definition marketBuyCont :: "ref \<Rightarrow> engine \<Rightarrow> bool" where
  "marketBuyCont r st =
     (0 < remaining_quantity (heap st ! r) \<and> askPrices (orderBook st) \<noteq> []
      \<and> getBestAsk (orderBook st) \<noteq> None)"

definition marketSellCont :: "ref \<Rightarrow> engine \<Rightarrow> bool" where
  "marketSellCont r st =
     (0 < remaining_quantity (heap st ! r) \<and> bidPrices (orderBook st) \<noteq> []
      \<and> getBestBid (orderBook st) \<noteq> None)"

definition limitBuyCont :: "ref \<Rightarrow> engine \<Rightarrow> bool" where
  "limitBuyCont r st =
     (0 < remaining_quantity (heap st ! r) \<and> askPrices (orderBook st) \<noteq> []
      \<and> (case getBestAsk (orderBook st) of
            None \<Rightarrow> False
          | Some a \<Rightarrow> \<not> num (price (heap st ! a)) > num (price (heap st ! r))))"

definition limitSellCont :: "ref \<Rightarrow> engine \<Rightarrow> bool" where
  "limitSellCont r st =
     (0 < remaining_quantity (heap st ! r) \<and> bidPrices (orderBook st) \<noteq> []
      \<and> (case getBestBid (orderBook st) of
            None \<Rightarrow> False
          | Some a \<Rightarrow> \<not> num (price (heap st ! a)) < num (price (heap st ! r))))"

definition trade_of_buy :: "ref \<Rightarrow> engine \<Rightarrow> trade \<Rightarrow> bool" where
  "trade_of_buy r st0 t =
     (0 < trade_quantity t \<and> buy_order_id t = order_id (heap st0 ! r)
      \<and> trade_instrument t = engine_instrument st0
      \<and> (\<exists>a. orders (orderBook st0) (order_id (heap st0 ! a)) = Some a
            \<and> side (heap st0 ! a) = Sell
            \<and> sell_order_id t = order_id (heap st0 ! a)
            \<and> trade_price t = price (heap st0 ! a)))"

definition trade_of_sell :: "ref \<Rightarrow> engine \<Rightarrow> trade \<Rightarrow> bool" where
  "trade_of_sell r st0 t =
     (0 < trade_quantity t \<and> sell_order_id t = order_id (heap st0 ! r)
      \<and> trade_instrument t = engine_instrument st0
      \<and> (\<exists>a. orders (orderBook st0) (order_id (heap st0 ! a)) = Some a
            \<and> side (heap st0 ! a) = Buy
            \<and> buy_order_id t = order_id (heap st0 ! a)
            \<and> trade_price t = price (heap st0 ! a)))"

definition progress :: "ref \<Rightarrow> engine \<Rightarrow> engine \<Rightarrow> bool" where
  "progress r st0 st =
     (static_eq (heap st0) (heap st)
      \<and> engine_instrument st = engine_instrument st0
      \<and> orders (orderBook st) \<subseteq>\<^sub>m orders (orderBook st0)
      \<and> set (askPrices (orderBook st)) \<subseteq> set (askPrices (orderBook st0))
      \<and> set (bidPrices (orderBook st)) \<subseteq> set (bidPrices (orderBook st0))
      \<and> (\<forall>x. x \<noteq> r \<and> \<not> is_open (heap st0 ! x) \<longrightarrow> heap st ! x = heap st0 ! x)
      \<and> (\<exists>ts. trades st = trades st0 @ ts
            \<and> filled_quantity (heap st ! r)
                = filled_quantity (heap st0 ! r) + sum_list (map trade_quantity ts)
            \<and> (\<forall>t\<in>set ts. if side (heap st0 ! r) = Buy then trade_of_buy r st0 t
                            else trade_of_sell r st0 t)))"

definition loop_inv :: "ref \<Rightarrow> engine \<Rightarrow> engine \<Rightarrow> bool" where
  "loop_inv r st0 st = (engine_inv st \<and> incoming_ok r st \<and> progress r st0 st)"

definition fresh_order :: "order \<Rightarrow> bool" where
  "fresh_order ord = (status ord = Open \<and> filled_quantity ord = 0 \<and> 0 < quantity ord)"

definition exhausted :: "ref \<Rightarrow> engine \<Rightarrow> bool" where
  "exhausted r st =
     (if side (heap st ! r) = Buy then askPrices (orderBook st) = []
      else bidPrices (orderBook st) = [])"

definition match_loop :: "ref \<Rightarrow> engine \<Rightarrow> engine option" where
  "match_loop r st =
     (case otype (heap st ! r) of
        Market \<Rightarrow>
          (if side (heap st ! r) = Buy then marketBuyLoop r st else marketSellLoop r st)
      | Limit \<Rightarrow>
          (if side (heap st ! r) = Buy then limitBuyLoop r st else limitSellLoop r st))"

definition uncrossing :: "ref \<Rightarrow> engine \<Rightarrow> bool" where
  "uncrossing r st =
     (if side (heap st ! r) = Buy
      then \<forall>ap\<in>set (askPrices (orderBook st)). num (price (heap st ! r)) < num ap
      else \<forall>bp\<in>set (bidPrices (orderBook st)). num bp < num (price (heap st ! r)))"

fun submitted :: "command list \<Rightarrow> order list" where
  "submitted [] = []"
| "submitted (Submit ord # cs) = ord # submitted cs"
| "submitted (Cancel oid # cs) = submitted cs"

definition valid_commands :: "command list \<Rightarrow> bool" where
  "valid_commands cs =
     (list_all fresh_order (submitted cs) \<and> distinct (map order_id (submitted cs)))"

section \<open>Statements about the engine, and example orders\<close>

definition no_cross :: "engine \<Rightarrow> bool" where
  "no_cross st =
     (case (getBestBid (orderBook st), getBestAsk (orderBook st)) of
        (Some b, Some a) \<Rightarrow> num (price (heap st ! b)) < num (price (heap st ! a))
      | _ \<Rightarrow> True)"

definition resting :: "engine \<Rightarrow> ref \<Rightarrow> bool" where
  "resting st x =
     (x < length (heap st) \<and> orders (orderBook st) (order_id (heap st ! x)) = Some x)"

definition maker_priced :: "engine \<Rightarrow> order \<Rightarrow> trade \<Rightarrow> bool" where
  "maker_priced st ord t =
     (\<exists>a<length (heap st). resting st a \<and> trade_price t = price (heap st ! a)
        \<and> (if side ord = Buy
            then side (heap st ! a) = Sell \<and> buy_order_id t = order_id ord
                 \<and> sell_order_id t = order_id (heap st ! a)
            else side (heap st ! a) = Buy \<and> sell_order_id t = order_id ord
                 \<and> buy_order_id t = order_id (heap st ! a)))"

definition limit_order :: "string \<Rightarrow> side \<Rightarrow> rat \<Rightarrow> rat \<Rightarrow> order" where
  "limit_order oid sd p q = \<lparr>order_id = oid, client_id = ''client-1'',
     instrument = ''BTC-USD'', side = sd, otype = Limit, price = Some p, quantity = q,
     filled_quantity = 0, status = Open, idempotency_key = None, created_at = 0\<rparr>"


definition scenario_partial :: "command list" where
  "scenario_partial = [Submit (limit_order ''A'' Sell 70000 (1/2)),
     Submit (limit_order ''B'' Buy 70000 1), Submit (limit_order ''C'' Sell 70100 1)]"


definition scenario_one_ask :: "command list" where
  "scenario_one_ask = [Submit (limit_order ''A'' Sell 70000 (1/2))]"




definition has_priority :: "engine \<Rightarrow> ref \<Rightarrow> bool" where
  "has_priority st a =
     (resting st a
      \<and> (\<forall>x<length (heap st).
            resting st x \<and> side (heap st ! x) = side (heap st ! a) \<longrightarrow>
              (if side (heap st ! a) = Sell
               then num (price (heap st ! a)) \<le> num (price (heap st ! x))
               else num (price (heap st ! x)) \<le> num (price (heap st ! a)))
              \<and> (price (heap st ! x) = price (heap st ! a) \<longrightarrow> a \<le> x)))"

section \<open>Exchange service (src/services/ExchangeService.js, src/db/postgres.js, src/db/redis.js)\<close>

text \<open>
  \<open>OrderBook.getSnapshot\<close>. \<open>priceLevel.reduce\<close> throws a TypeError when the price array
  names a level that the map does not have; that is the value \<open>None\<close>.
\<close>

record level_entry =
  level_price :: price
  level_quantity :: rat
  level_cumulative :: rat

record snapshot =
  snap_bids :: "level_entry list"
  snap_asks :: "level_entry list"

fun snapshot_side :: "order list \<Rightarrow> (price \<rightharpoonup> ref list) \<Rightarrow> rat \<Rightarrow> price list \<Rightarrow> level_entry list option"
  where
  "snapshot_side h m running [] = Some []"
| "snapshot_side h m running (p # ps) =
     (case m p of
        None \<Rightarrow> None
      | Some priceLevel \<Rightarrow>
          (let qty = foldl (\<lambda>acc r. acc + remaining_quantity (h ! r)) 0 priceLevel;
               running' = running + qty
           in map_option
                (\<lambda>rest. \<lparr>level_price = p, level_quantity = qty,
                           level_cumulative = running'\<rparr> # rest)
                (snapshot_side h m running' ps)))"

definition getSnapshot :: "nat \<Rightarrow> order list \<Rightarrow> orderBook \<Rightarrow> snapshot option" where
  "getSnapshot levels h b =
     (case snapshot_side h (bids b) 0 (take levels (bidPrices b)) of
        None \<Rightarrow> None
      | Some bs \<Rightarrow>
          (case snapshot_side h (asks b) 0 (take levels (askPrices b)) of
             None \<Rightarrow> None
           | Some al \<Rightarrow> Some \<lparr>snap_bids = bs, snap_asks = al\<rparr>))"

definition getOrderBookSnapshot :: "nat \<Rightarrow> engine \<Rightarrow> snapshot option" where
  "getOrderBookSnapshot levels st = getSnapshot levels (heap st) (orderBook st)"

text \<open>
  The state the service works on: its engines, the tables of the record store (rows of
  \<open>orders\<close> in insertion order, keyed by \<open>order_id\<close>), the idempotency keys of the
  key-value store, and the messages sent to the event log and to the subscribers, in order.
  Expiry of a cached key, metrics and logging are not modelled. The callbacks that
  \<open>submitOrder\<close> hands to the engine are applied in the order the engine called them.
  \<open>uuidv4()\<close> and \<open>new Date()\<close> are arguments of \<open>submitOrder\<close>.
  \<open>_validateOrder\<close> is declared \<open>async\<close> and called without \<open>await\<close>: what it throws
  rejects a promise that nothing reads, so it has no part in what \<open>submitOrder\<close> does.
\<close>

record order_event =
  event_order_id :: string
  event_type :: string
  event_data :: order

datatype message =
    KafkaOrder order
  | KafkaOrderEvent order_event
  | KafkaTrade trade
  | KafkaOrderBookUpdate string snapshot
  | RedisTrade string trade
  | RedisOrder string order
  | RedisOrderBook string snapshot

record exchange =
  engines :: "string \<rightharpoonup> engine"
  db_orders :: "(string \<times> order) list"
  db_trades :: "trade list"
  db_events :: "order_event list"
  db_snapshots :: "(string \<times> snapshot) list"
  db_positions :: "((string \<times> string) \<times> (rat \<times> rat)) list"
  idempotency :: "string \<rightharpoonup> string"
  outbox :: "message list"

definition defaultInstrument :: string where
  "defaultInstrument = ''BTC-USD''"

definition newExchange :: exchange where
  "newExchange = \<lparr>engines = Map.empty, db_orders = [], db_trades = [], db_events = [],
     db_snapshots = [], db_positions = [], idempotency = Map.empty, outbox = []\<rparr>"

definition getEngine :: "string \<Rightarrow> exchange \<Rightarrow> engine \<times> exchange" where
  "getEngine i ex =
     (case engines ex i of
        Some e \<Rightarrow> (e, ex)
      | None \<Rightarrow> (newEngine i, ex\<lparr>engines := (engines ex)(i \<mapsto> newEngine i)\<rparr>))"

definition fromDB :: "order \<Rightarrow> order" where
  "fromDB row = row"

definition db_getOrder :: "string \<Rightarrow> exchange \<Rightarrow> order option" where
  "db_getOrder oid ex = map_of (db_orders ex) oid"

definition status_name :: "status \<Rightarrow> string" where
  "status_name s =
     (case s of Open \<Rightarrow> ''open'' | PartiallyFilled \<Rightarrow> ''partially_filled''
      | Filled \<Rightarrow> ''filled'' | Cancelled \<Rightarrow> ''cancelled'' | Rejected \<Rightarrow> ''rejected'')"

definition db_saveOrder :: "order \<Rightarrow> exchange \<Rightarrow> error + exchange" where
  "db_saveOrder ord ex =
     (case map_of (db_orders ex) (order_id ord) of
        Some row \<Rightarrow>
          Inr (ex\<lparr>db_orders :=
                 map (\<lambda>(k, r). if k = order_id ord
                                then (k, r\<lparr>filled_quantity := filled_quantity ord,
                                          status := status ord\<rparr>)
                                else (k, r))
                     (db_orders ex)\<rparr>)
      | None \<Rightarrow>
          if idempotency_key ord \<noteq> None
             \<and> list_ex (\<lambda>(k, r). idempotency_key r = idempotency_key ord) (db_orders ex)
          then Inl (DbError ''duplicate key value violates unique constraint'')
          else Inr (ex\<lparr>db_orders := db_orders ex @ [(order_id ord, ord)]\<rparr>))"

definition db_saveOrderEvent :: "order_event \<Rightarrow> exchange \<Rightarrow> exchange" where
  "db_saveOrderEvent ev ex = ex\<lparr>db_events := db_events ex @ [ev]\<rparr>"

definition db_saveTrade :: "trade \<Rightarrow> exchange \<Rightarrow> error + exchange" where
  "db_saveTrade t ex =
     (if map_of (db_orders ex) (buy_order_id t) = None
         \<or> map_of (db_orders ex) (sell_order_id t) = None
      then Inl (DbError ''violates foreign key constraint'')
      else Inr (ex\<lparr>db_trades := db_trades ex @ [t]\<rparr>))"

definition updateClientPosition ::
  "string \<Rightarrow> string \<Rightarrow> rat \<Rightarrow> price \<Rightarrow> exchange \<Rightarrow> exchange" where
  "updateClientPosition clientId i q p ex =
     (let cost = q * num p
      in case map_of (db_positions ex) (clientId, i) of
           None \<Rightarrow> ex\<lparr>db_positions := db_positions ex @ [((clientId, i), (q, cost))]\<rparr>
         | Some (n, c) \<Rightarrow>
             ex\<lparr>db_positions :=
                  map (\<lambda>(k, v). if k = (clientId, i) then (k, (n + q, c + cost)) else (k, v))
                      (db_positions ex)\<rparr>)"

definition updatePositions :: "trade \<Rightarrow> exchange \<Rightarrow> exchange" where
  "updatePositions t ex =
     (let ex1 = (case db_getOrder (buy_order_id t) ex of
                   None \<Rightarrow> ex
                 | Some buyOrder \<Rightarrow>
                     updateClientPosition (client_id buyOrder) (trade_instrument t)
                       (trade_quantity t) (trade_price t) ex)
      in case db_getOrder (sell_order_id t) ex1 of
           None \<Rightarrow> ex1
         | Some sellOrder \<Rightarrow>
             updateClientPosition (client_id sellOrder) (trade_instrument t)
               (- trade_quantity t) (trade_price t) ex1)"

definition publish :: "message list \<Rightarrow> exchange \<Rightarrow> exchange" where
  "publish ms ex = ex\<lparr>outbox := outbox ex @ ms\<rparr>"

fun apply_callback :: "exchange \<Rightarrow> callback \<Rightarrow> exchange" where
  "apply_callback ex (OnTrade t) =
     (case db_saveTrade t ex of
        Inl e \<Rightarrow> ex
      | Inr ex1 \<Rightarrow>
          publish [KafkaTrade t, RedisTrade (trade_instrument t) t] (updatePositions t ex1))"
| "apply_callback ex (OnOrderUpdate updatedOrder) =
     (case db_saveOrder updatedOrder ex of
        Inl e \<Rightarrow> ex
      | Inr ex1 \<Rightarrow>
          publish [KafkaOrder updatedOrder, RedisOrder (instrument updatedOrder) updatedOrder]
            (db_saveOrderEvent
               \<lparr>event_order_id = order_id updatedOrder,
                  event_type = ''order_'' @ status_name (status updatedOrder),
                  event_data = updatedOrder\<rparr> ex1))"

record order_data =
  data_order_id :: "string option"
  data_client_id :: string
  data_instrument :: "string option"
  data_side :: side
  data_type :: otype
  data_price :: price
  data_quantity :: rat

record submit_result =
  result_order :: order
  result_trades :: "trade list"
  result_orderbook :: "snapshot option"

definition truthy :: "string option \<Rightarrow> bool" where
  "truthy s = (case s of None \<Rightarrow> False | Some x \<Rightarrow> x \<noteq> [])"

definition or_default :: "string option \<Rightarrow> string \<Rightarrow> string" where
  "or_default s d = (case s of None \<Rightarrow> d | Some x \<Rightarrow> if x = [] then d else x)"

definition idempotent_hit :: "string option \<Rightarrow> exchange \<Rightarrow> order option" where
  "idempotent_hit idempotencyKey ex =
     (case idempotencyKey of
        None \<Rightarrow> None
      | Some k \<Rightarrow>
          if k = [] then None
          else (case idempotency ex k of
                  None \<Rightarrow> None
                | Some existingOrderId \<Rightarrow>
                    if existingOrderId = [] then None else db_getOrder existingOrderId ex))"

definition setIdempotencyKey :: "string \<Rightarrow> string \<Rightarrow> exchange \<Rightarrow> exchange" where
  "setIdempotencyKey k oid ex =
     (case idempotency ex k of
        None \<Rightarrow> ex\<lparr>idempotency := (idempotency ex)(k \<mapsto> oid)\<rparr>
      | Some v \<Rightarrow> ex)"

definition submitOrder ::
  "order_data \<Rightarrow> string option \<Rightarrow> string \<Rightarrow> nat \<Rightarrow> exchange
     \<Rightarrow> ((error + submit_result) \<times> exchange) option" where
  "submitOrder orderData idempotencyKey uuid now ex =
     (case idempotent_hit idempotencyKey ex of
        Some existingOrder \<Rightarrow>
          Some (Inr \<lparr>result_order = fromDB existingOrder, result_trades = [],
                     result_orderbook = None\<rparr>, ex)
      | None \<Rightarrow>
          (let ord = \<lparr>order_id = or_default (data_order_id orderData) uuid,
                      client_id = data_client_id orderData,
                      instrument = or_default (data_instrument orderData) defaultInstrument,
                      side = data_side orderData, otype = data_type orderData,
                      price = data_price orderData, quantity = data_quantity orderData,
                      filled_quantity = 0, status = Open,
                      idempotency_key = idempotencyKey, created_at = now\<rparr>
           in case db_saveOrder ord ex of
                Inl e \<Rightarrow> Some (Inl e, ex)
              | Inr ex1 \<Rightarrow>
                  (let ex2 = (case idempotencyKey of
                                None \<Rightarrow> ex1
                              | Some k \<Rightarrow>
                                  if k = [] then ex1
                                  else setIdempotencyKey k (order_id ord) ex1);
                       created = \<lparr>event_order_id = order_id ord,
                                   event_type = ''order_created'', event_data = ord\<rparr>;
                       ex3 = publish [KafkaOrder ord, KafkaOrderEvent created]
                               (db_saveOrderEvent created ex2);
                       (eng, ex4) = getEngine (instrument ord) ex3
                   in case processOrder ord eng of
                        None \<Rightarrow> None
                      | Some eng' \<Rightarrow>
                          (let ex5 = foldl apply_callback
                                 (ex4\<lparr>engines := (engines ex4)(instrument ord \<mapsto> eng')\<rparr>)
                                 (drop (length (callbacks eng)) (callbacks eng'))
                           in case getOrderBookSnapshot 20 eng' of
                                None \<Rightarrow> Some (Inl (TypeError ''reduce''), ex5)
                              | Some snap \<Rightarrow>
                                  Some (Inr \<lparr>result_order = heap eng' ! length (heap eng),
                                             result_trades =
                                               drop (length (trades eng)) (trades eng'),
                                             result_orderbook = Some snap\<rparr>,
                                        publish [KafkaOrderBookUpdate (instrument ord) snap,
                                                 RedisOrderBook (instrument ord) snap] ex5)))))"

text \<open>The branch of \<open>cancelOrder\<close> taken when the engine's call yields no order.\<close>

definition cancel_from_store :: "string \<Rightarrow> exchange \<Rightarrow> (error + order) \<times> exchange" where
  "cancel_from_store orderId ex =
     (case db_getOrder orderId ex of
        None \<Rightarrow> (Inl (OrderNotFound orderId), ex)
      | Some orderRow \<Rightarrow>
          (case cancel (fromDB orderRow) of
             Inl e \<Rightarrow> (Inl e, ex)
           | Inr dbOrder \<Rightarrow>
               (case db_saveOrder dbOrder ex of
                  Inl e \<Rightarrow> (Inl e, ex)
                | Inr ex1 \<Rightarrow> (Inr dbOrder, ex1))))"

definition service_cancelOrder ::
  "string \<Rightarrow> string option \<Rightarrow> exchange \<Rightarrow> (error + order) \<times> exchange" where
  "service_cancelOrder orderId instrument_arg ex =
     (let i = or_default instrument_arg defaultInstrument;
          (eng, ex1) = getEngine i ex
      in case cancelOrder orderId eng of
           Inl e \<Rightarrow> (Inl e, ex1)
         | Inr (eng', r) \<Rightarrow>
             (case Some (heap eng' ! r) of
                None \<Rightarrow> cancel_from_store orderId ex1
              | Some ord \<Rightarrow>
                  (let ex2 = ex1\<lparr>engines := (engines ex1)(i \<mapsto> eng')\<rparr>
                   in case db_saveOrder ord ex2 of
                        Inl e \<Rightarrow> (Inl e, ex2)
                      | Inr ex3 \<Rightarrow>
                          (let ex4 = publish [KafkaOrder ord]
                                 (db_saveOrderEvent
                                    \<lparr>event_order_id = order_id ord,
                                       event_type = ''order_cancelled'',
                                       event_data = ord\<rparr> ex3)
                           in case getOrderBookSnapshot 20 eng' of
                                None \<Rightarrow> (Inl (TypeError ''reduce''), ex4)
                              | Some snap \<Rightarrow>
                                  (Inr ord,
                                   publish [KafkaOrderBookUpdate i snap, RedisOrderBook i snap]
                                     ex4)))))"

definition getOpenOrders :: "string \<Rightarrow> exchange \<Rightarrow> order list" where
  "getOpenOrders i ex =
     sort_key created_at
       (filter (\<lambda>row. instrument row = i \<and> (status row = Open \<or> status row = PartiallyFilled))
          (map snd (db_orders ex)))"

definition load_order :: "engine \<Rightarrow> order \<Rightarrow> engine" where
  "load_order eng orderRow =
     (let ord = fromDB orderRow
      in if is_open ord
         then (let h = heap eng @ [ord]
               in eng\<lparr>heap := h, orderBook := addOrder h (length (heap eng)) (orderBook eng)\<rparr>)
         else eng)"

definition loadOpenOrders :: "exchange \<Rightarrow> string list \<times> exchange" where
  "loadOpenOrders ex =
     (let i = defaultInstrument;
          openOrders = getOpenOrders i ex;
          (eng, ex1) = getEngine i ex;
          eng' = foldl load_order eng openOrders
      in ([i], ex1\<lparr>engines := (engines ex1)(i \<mapsto> eng')\<rparr>))"

definition initialize :: "exchange \<Rightarrow> exchange" where
  "initialize ex = snd (loadOpenOrders ex)"

definition db_wf :: "exchange \<Rightarrow> bool" where
  "db_wf ex = list_all (\<lambda>(k, row). order_id row = k) (db_orders ex)"

definition store_with_open_order :: exchange where
  "store_with_open_order = newExchange\<lparr>db_orders := [(''order-1'', example_order)]\<rparr>"

definition example_data :: order_data where
  "example_data = \<lparr>data_order_id = None, data_client_id = ''client-1'',
     data_instrument = None, data_side = Buy, data_type = Limit, data_price = Some 70000,
     data_quantity = 1\<rparr>"

definition first_submit :: "((error + submit_result) \<times> exchange) option" where
  "first_submit = submitOrder example_data (Some ''K'') ''uuid-1'' 0 newExchange"

definition submitted_row :: order where
  "submitted_row = \<lparr>order_id = ''uuid-1'', client_id = ''client-1'',
     instrument = ''BTC-USD'', side = Buy, otype = Limit, price = Some 70000, quantity = 1,
     filled_quantity = 0, status = Open, idempotency_key = Some ''K'', created_at = 0\<rparr>"

section \<open>Views of the book used to compare two books\<close>

definition resting_refs :: "engine \<Rightarrow> ref list" where
  "resting_refs st =
     filter (\<lambda>x. orders (orderBook st) (order_id (heap st ! x)) = Some x) [0..<length (heap st)]"

definition resting_orders :: "engine \<Rightarrow> order list" where
  "resting_orders st = map (\<lambda>x. heap st ! x) (resting_refs st)"

definition ladder :: "side \<Rightarrow> orderBook \<Rightarrow> (price \<rightharpoonup> ref list)" where
  "ladder sd b = (if sd = Buy then bids b else asks b)"

definition ladder_prices :: "side \<Rightarrow> orderBook \<Rightarrow> price list" where
  "ladder_prices sd b = (if sd = Buy then bidPrices b else askPrices b)"

definition ladder_key :: "side \<Rightarrow> price \<Rightarrow> rat" where
  "ladder_key sd = (if sd = Buy then (\<lambda>a. - num a) else num)"

definition ladder_view :: "side \<Rightarrow> engine \<Rightarrow> (price \<times> order list) list" where
  "ladder_view sd st =
     map (\<lambda>p. (p, map (\<lambda>x. heap st ! x)
                    (case ladder sd (orderBook st) p of None \<Rightarrow> [] | Some l \<Rightarrow> l)))
         (ladder_prices sd (orderBook st))"

definition best_bid_order :: "engine \<Rightarrow> order option" where
  "best_bid_order st = map_option (\<lambda>x. heap st ! x) (getBestBid (orderBook st))"

definition best_ask_order :: "engine \<Rightarrow> order option" where
  "best_ask_order st = map_option (\<lambda>x. heap st ! x) (getBestAsk (orderBook st))"

fun snapshot_levels :: "rat \<Rightarrow> (price \<times> order list) list \<Rightarrow> level_entry list" where
  "snapshot_levels running [] = []"
| "snapshot_levels running ((p, os) # v) =
     (let qty = foldl (\<lambda>acc ord. acc + remaining_quantity ord) 0 os;
          running' = running + qty
      in \<lparr>level_price = p, level_quantity = qty, level_cumulative = running'\<rparr>
           # snapshot_levels running' v)"

definition head_order :: "(price \<times> order list) list \<Rightarrow> order option" where
  "head_order v =
     (case v of [] \<Rightarrow> None | (p, os) # _ \<Rightarrow> (case os of [] \<Rightarrow> None | ord # _ \<Rightarrow> Some ord))"

definition eth_order :: order where
  "eth_order = \<lparr>order_id = ''eth-1'', client_id = ''client-1'',
     instrument = ''ETH-USD'', side = Buy, otype = Limit, price = Some 3000, quantity = 1,
     filled_quantity = 0, status = Open, idempotency_key = None, created_at = 0\<rparr>"

definition store_with_eth_order :: exchange where
  "store_with_eth_order = newExchange\<lparr>db_orders := [(''eth-1'', eth_order)]\<rparr>"

definition recovery_commands :: "command list" where
  "recovery_commands =
     [Submit ((limit_order ''A'' Sell 70000 (1/2))\<lparr>created_at := 1\<rparr>),
      Submit ((limit_order ''B'' Buy 70000 1)\<lparr>created_at := 2\<rparr>),
      Submit ((limit_order ''C'' Sell 70100 1)\<lparr>created_at := 3\<rparr>)]"

definition recovery_rows :: "order list" where
  "recovery_rows =
     [(limit_order ''B'' Buy 70000 1)
        \<lparr>created_at := 2, filled_quantity := 1/2, status := PartiallyFilled\<rparr>,
      (limit_order ''C'' Sell 70100 1)\<lparr>created_at := 3\<rparr>]"

definition recovery_store :: exchange where
  "recovery_store = newExchange\<lparr>db_orders :=
     [(''C'', (limit_order ''C'' Sell 70100 1)\<lparr>created_at := 3\<rparr>),
      (''A'', (limit_order ''A'' Sell 70000 (1/2))
                \<lparr>created_at := 1, filled_quantity := 1/2, status := Filled\<rparr>),
      (''B'', (limit_order ''B'' Buy 70000 1)
                \<lparr>created_at := 2, filled_quantity := 1/2, status := PartiallyFilled\<rparr>)]\<rparr>"

definition all_resting :: "engine \<Rightarrow> bool" where
  "all_resting st =
     (\<forall>x<length (heap st). orders (orderBook st) (order_id (heap st ! x)) = Some x)"

section \<open>Removal of an unknown order id\<close>




section \<open>The order life cycle\<close>

lemma fill_consistent:
  assumes "order_consistent ord" "is_open ord" "0 < q" "q \<le> remaining_quantity ord"
  shows "order_consistent (fill q ord)"
  using assms
  by (auto simp: order_consistent_def fill_def is_filled_def is_open_def
      remaining_quantity_def Let_def)

lemma cancel_consistent:
  assumes "order_consistent ord" "cancel ord = Inr ord'"
  shows "order_consistent ord'"
  using assms
  by (auto simp: order_consistent_def cancel_def is_open_def split: if_splits)

lemma reject_consistent:
  assumes "order_consistent ord" "is_open ord" "0 < remaining_quantity ord"
  shows "order_consistent (reject reason ord)"
  using assms
  by (auto simp: order_consistent_def reject_def is_open_def remaining_quantity_def)









section \<open>The engine keeps its book well formed and every command returns\<close>

lemma fill_static [simp]:
  "order_id (fill q ord) = order_id ord"
  "price (fill q ord) = price ord"
  "side (fill q ord) = side ord"
  "otype (fill q ord) = otype ord"
  "quantity (fill q ord) = quantity ord"
  "filled_quantity (fill q ord) = filled_quantity ord + q"
  by (simp_all add: fill_def Let_def)

lemma findIndex_None: "findIndex P l = None \<longleftrightarrow> (\<forall>x\<in>set l. \<not> P x)"
  by (induction l) auto

lemma findIndex_remove1:
  assumes "r \<in> set l" "\<forall>x\<in>set l. P x \<longleftrightarrow> x = r"
  shows "\<exists>i. findIndex P l = Some i \<and> splice1 i l = remove1 r l"
  using assms
proof (induction l)
  case Nil
  then show ?case by simp
next
  case (Cons a l)
  show ?case
  proof (cases "a = r")
    case True
    with Cons.prems show ?thesis by (simp add: splice1_def)
  next
    case False
    with Cons.prems have "r \<in> set l" "\<forall>x\<in>set l. P x \<longleftrightarrow> x = r" "\<not> P a" by auto
    with Cons.IH obtain i where "findIndex P l = Some i" "splice1 i l = remove1 r l" by blast
    with False \<open>\<not> P a\<close> show ?thesis by (simp add: splice1_def)
  qed
qed

lemma static_eq_refl [simp]: "static_eq h h"
  by (simp add: static_eq_def)

lemma static_eq_trans: "static_eq h h' \<Longrightarrow> static_eq h' h'' \<Longrightarrow> static_eq h h''"
  by (simp add: static_eq_def)

lemma static_eq_update:
  assumes "order_id v = order_id (h ! r)" "price v = price (h ! r)" "side v = side (h ! r)"
    and "quantity v = quantity (h ! r)" "otype v = otype (h ! r)"
  shows "static_eq h (h[r := v])"
  using assms
  by (cases "r < length h") (auto simp: static_eq_def nth_list_update not_less list_update_beyond)

lemma removeBid_static: "static_eq h h' \<Longrightarrow> removeBid h' r b = removeBid h r b"
  by (auto simp: removeBid_def static_eq_def Let_def split: option.splits)

lemma removeAsk_static: "static_eq h h' \<Longrightarrow> removeAsk h' r b = removeAsk h r b"
  by (auto simp: removeAsk_def static_eq_def Let_def split: option.splits)

lemma removeOrder_static: "static_eq h h' \<Longrightarrow> removeOrder h' oid b = removeOrder h oid b"
  by (auto simp: removeOrder_def removeBid_static removeAsk_static Let_def static_eq_def
      split: option.splits)

lemma addOrder_static: "static_eq h h' \<Longrightarrow> addOrder h' r b = addOrder h r b"
  by (auto simp: addOrder_def addBid_def addAsk_def static_eq_def Let_def split: option.splits)

lemma level_wf_static: "static_eq h h' \<Longrightarrow> level_wf h' sd idx p l = level_wf h sd idx p l"
  by (simp add: level_wf_def static_eq_def)

lemma half_wf_static: "static_eq h h' \<Longrightarrow> half_wf h' sd idx key m ps = half_wf h sd idx key m ps"
  by (simp add: half_wf_def level_wf_static)

lemma book_wf_static: "static_eq h h' \<Longrightarrow> book_wf h' b = book_wf h b"
  by (simp add: book_wf_def half_wf_static index_wf_def) (simp add: static_eq_def)

lemma level_member_unique:
  assumes "level_wf h sd idx p l" "r \<in> set l" "x \<in> set l" "order_id (h ! x) = order_id (h ! r)"
  shows "x = r"
  using assms unfolding level_wf_def by (metis option.inject)

lemma removeAsk_eq:
  assumes "asks b p = Some l" "price (h ! r) = p" "r \<in> set l"
    and "\<forall>x\<in>set l. order_id (h ! x) = order_id (h ! r) \<longrightarrow> x = r"
  shows "removeAsk h r b =
     (if remove1 r l = []
      then b\<lparr>asks := (asks b)(p := None), askPrices := filter (\<lambda>q. q \<noteq> p) (askPrices b)\<rparr>
      else b\<lparr>asks := (asks b)(p \<mapsto> remove1 r l)\<rparr>)"
proof -
  have "\<forall>x\<in>set l. (order_id (h ! x) = order_id (h ! r)) \<longleftrightarrow> x = r"
    using assms(4) by auto
  with assms(3) obtain i where
    "findIndex (\<lambda>x. order_id (h ! x) = order_id (h ! r)) l = Some i" "splice1 i l = remove1 r l"
    using findIndex_remove1 [of r l "\<lambda>x. order_id (h ! x) = order_id (h ! r)"] by blast
  with assms(1,2) show ?thesis by (simp add: removeAsk_def)
qed

lemma removeBid_eq:
  assumes "bids b p = Some l" "price (h ! r) = p" "r \<in> set l"
    and "\<forall>x\<in>set l. order_id (h ! x) = order_id (h ! r) \<longrightarrow> x = r"
  shows "removeBid h r b =
     (if remove1 r l = []
      then b\<lparr>bids := (bids b)(p := None), bidPrices := filter (\<lambda>q. q \<noteq> p) (bidPrices b)\<rparr>
      else b\<lparr>bids := (bids b)(p \<mapsto> remove1 r l)\<rparr>)"
proof -
  have "\<forall>x\<in>set l. (order_id (h ! x) = order_id (h ! r)) \<longleftrightarrow> x = r"
    using assms(4) by auto
  with assms(3) obtain i where
    "findIndex (\<lambda>x. order_id (h ! x) = order_id (h ! r)) l = Some i" "splice1 i l = remove1 r l"
    using findIndex_remove1 [of r l "\<lambda>x. order_id (h ! x) = order_id (h ! r)"] by blast
  with assms(1,2) show ?thesis by (simp add: removeBid_def)
qed

lemma level_wf_idx_remove:
  assumes "level_wf h sd idx p l" "r \<notin> set l" "idx oid = Some r"
  shows "level_wf h sd (idx(oid := None)) p l"
  using assms unfolding level_wf_def by auto

lemma half_wf_idx_remove:
  assumes "half_wf h sd idx key m ps" "idx oid = Some r"
    and "\<forall>p\<in>set ps. \<forall>l. m p = Some l \<longrightarrow> r \<notin> set l"
  shows "half_wf h sd (idx(oid := None)) key m ps"
  using assms unfolding half_wf_def by (blast intro: level_wf_idx_remove)

lemma level_wf_remove1:
  assumes "level_wf h sd idx p l" "remove1 r l \<noteq> []" "idx oid = Some r"
  shows "level_wf h sd (idx(oid := None)) p (remove1 r l)"
proof -
  have "r \<notin> set (remove1 r l)"
    using assms(1) by (simp add: level_wf_def)
  moreover have "level_wf h sd idx p (remove1 r l)"
    using assms(1,2) unfolding level_wf_def
    by (auto simp: sorted_remove1 dest: notin_set_remove1)
  ultimately show ?thesis using assms(3) by (blast intro: level_wf_idx_remove)
qed

lemma half_wf_remove:
  assumes wf: "half_wf h sd idx key m ps" and mp: "m p = Some l" and rl: "r \<in> set l"
    and idx: "idx oid = Some r"
  shows "half_wf h sd (idx(oid := None)) key
           (if remove1 r l = [] then m(p := None) else m(p \<mapsto> remove1 r l))
           (if remove1 r l = [] then filter (\<lambda>q. q \<noteq> p) ps else ps)"
proof -
  have pin: "p \<in> set ps" using wf mp by (auto simp: half_wf_def)
  have lw: "level_wf h sd idx p l" using wf mp pin by (simp add: half_wf_def)
  have other: "r \<notin> set l'" if "p' \<in> set ps" "m p' = Some l'" "p' \<noteq> p" for p' l'
  proof
    assume "r \<in> set l'"
    moreover have "level_wf h sd idx p' l'" using wf that by (simp add: half_wf_def)
    ultimately have "price (h ! r) = p'" by (simp add: level_wf_def)
    moreover have "price (h ! r) = p" using lw rl by (simp add: level_wf_def)
    ultimately show False using that(3) by simp
  qed
  have lv: "level_wf h sd (idx(oid := None)) p' l'" if "p' \<in> set ps" "m p' = Some l'" "p' \<noteq> p" for p' l'
    using wf that other [OF that] idx by (auto simp: half_wf_def intro: level_wf_idx_remove)
  show ?thesis
  proof (cases "remove1 r l = []")
    case True
    have "sorted (map key (filter (\<lambda>q. q \<noteq> p) ps))"
      using wf by (simp add: half_wf_def sorted_filter)
    moreover have "dom (m(p := None)) = set (filter (\<lambda>q. q \<noteq> p) ps)"
      using wf by (auto simp: half_wf_def)
    ultimately show ?thesis using True wf lv by (auto simp: half_wf_def)
  next
    case False
    have "level_wf h sd (idx(oid := None)) p (remove1 r l)"
      using lw False idx by (rule level_wf_remove1)
    moreover have "dom (m(p \<mapsto> remove1 r l)) = set ps"
      using wf pin by (auto simp: half_wf_def)
    ultimately show ?thesis using False wf lv by (auto simp: half_wf_def)
  qed
qed

lemma index_wf_D:
  assumes "index_wf h b" "orders b oid = Some r"
  shows "r < length h" "order_id (h ! r) = oid"
    "\<exists>l. (if side (h ! r) = Buy then bids b else asks b) (price (h ! r)) = Some l \<and> r \<in> set l"
  using assms unfolding index_wf_def by blast+

lemma half_wf_level:
  assumes "half_wf h sd idx key m ps" "m p = Some l"
  shows "level_wf h sd idx p l" "p \<in> set ps"
  using assms unfolding half_wf_def by auto

lemma removeOrder_sell_eq:
  assumes wf: "book_wf h b" and o: "orders b oid = Some r" and sd: "side (h ! r) = Sell"
    and lv: "asks b (price (h ! r)) = Some l"
  shows "removeOrder h oid b =
     (if remove1 r l = []
      then b\<lparr>orders := (orders b)(oid := None), asks := (asks b)(price (h ! r) := None),
             askPrices := filter (\<lambda>q. q \<noteq> price (h ! r)) (askPrices b)\<rparr>
      else b\<lparr>orders := (orders b)(oid := None),
             asks := (asks b)(price (h ! r) \<mapsto> remove1 r l)\<rparr>)"
proof -
  have iw: "index_wf h b" and hw: "half_wf h Sell (orders b) num (asks b) (askPrices b)"
    using wf by (simp_all add: book_wf_def)
  have rl: "r \<in> set l" using index_wf_D(3) [OF iw o] sd lv by auto
  have lw: "level_wf h Sell (orders b) (price (h ! r)) l" using half_wf_level(1) [OF hw lv] .
  have uniq: "\<forall>x\<in>set l. order_id (h ! x) = order_id (h ! r) \<longrightarrow> x = r"
    using level_member_unique [OF lw rl] by blast
  let ?b1 = "b\<lparr>orders := (orders b)(oid := None)\<rparr>"
  have "removeAsk h r ?b1 =
     (if remove1 r l = []
      then ?b1\<lparr>asks := (asks ?b1)(price (h ! r) := None),
               askPrices := filter (\<lambda>q. q \<noteq> price (h ! r)) (askPrices ?b1)\<rparr>
      else ?b1\<lparr>asks := (asks ?b1)(price (h ! r) \<mapsto> remove1 r l)\<rparr>)"
    by (rule removeAsk_eq) (use lv rl uniq in auto)
  with o sd show ?thesis by (simp add: removeOrder_def)
qed

lemma removeOrder_buy_eq:
  assumes wf: "book_wf h b" and o: "orders b oid = Some r" and sd: "side (h ! r) = Buy"
    and lv: "bids b (price (h ! r)) = Some l"
  shows "removeOrder h oid b =
     (if remove1 r l = []
      then b\<lparr>orders := (orders b)(oid := None), bids := (bids b)(price (h ! r) := None),
             bidPrices := filter (\<lambda>q. q \<noteq> price (h ! r)) (bidPrices b)\<rparr>
      else b\<lparr>orders := (orders b)(oid := None),
             bids := (bids b)(price (h ! r) \<mapsto> remove1 r l)\<rparr>)"
proof -
  have iw: "index_wf h b" and hw: "half_wf h Buy (orders b) (\<lambda>a. - num a) (bids b) (bidPrices b)"
    using wf by (simp_all add: book_wf_def)
  have rl: "r \<in> set l" using index_wf_D(3) [OF iw o] sd lv by auto
  have lw: "level_wf h Buy (orders b) (price (h ! r)) l" using half_wf_level(1) [OF hw lv] .
  have uniq: "\<forall>x\<in>set l. order_id (h ! x) = order_id (h ! r) \<longrightarrow> x = r"
    using level_member_unique [OF lw rl] by blast
  let ?b1 = "b\<lparr>orders := (orders b)(oid := None)\<rparr>"
  have "removeBid h r ?b1 =
     (if remove1 r l = []
      then ?b1\<lparr>bids := (bids ?b1)(price (h ! r) := None),
               bidPrices := filter (\<lambda>q. q \<noteq> price (h ! r)) (bidPrices ?b1)\<rparr>
      else ?b1\<lparr>bids := (bids ?b1)(price (h ! r) \<mapsto> remove1 r l)\<rparr>)"
    by (rule removeBid_eq) (use lv rl uniq in auto)
  with o sd show ?thesis by (simp add: removeOrder_def)
qed

lemma half_wf_not_member:
  assumes "half_wf h sd idx key m ps" "side (h ! r) \<noteq> sd"
  shows "\<forall>p\<in>set ps. \<forall>l. m p = Some l \<longrightarrow> r \<notin> set l"
  using assms unfolding half_wf_def level_wf_def by blast

lemma index_wf_remove_sell:
  assumes iw: "index_wf h b" and o: "orders b oid = Some r" and sd: "side (h ! r) = Sell"
    and lv: "asks b (price (h ! r)) = Some l"
  shows "index_wf h (b\<lparr>orders := (orders b)(oid := None),
            asks := (if remove1 r l = [] then (asks b)(price (h ! r) := None)
                     else (asks b)(price (h ! r) \<mapsto> remove1 r l)),
            askPrices := ps'\<rparr>)"
  unfolding index_wf_def
proof (intro allI impI)
  fix oid' r'
  let ?b' = "b\<lparr>orders := (orders b)(oid := None),
            asks := (if remove1 r l = [] then (asks b)(price (h ! r) := None)
                     else (asks b)(price (h ! r) \<mapsto> remove1 r l)),
            askPrices := ps'\<rparr>"
  assume a: "orders ?b' oid' = Some r'"
  then have ne: "oid' \<noteq> oid" and o': "orders b oid' = Some r'" by (auto split: if_splits)
  note d = index_wf_D [OF iw o'] index_wf_D [OF iw o]
  have rr: "r' \<noteq> r" using d ne by auto
  obtain l' where l': "(if side (h ! r') = Buy then bids b else asks b) (price (h ! r')) = Some l'"
    "r' \<in> set l'" using d(3) by blast
  have "\<exists>l''. (if side (h ! r') = Buy then bids ?b' else asks ?b') (price (h ! r')) = Some l''
      \<and> r' \<in> set l''"
  proof (cases "side (h ! r') = Sell \<and> price (h ! r') = price (h ! r)")
    case True
    with l' lv have "l' = l" by (auto split: if_splits)
    with l'(2) rr have "r' \<in> set (remove1 r l)" by simp
    then show ?thesis using True by (auto split: if_splits)
  next
    case False
    then show ?thesis using l' by (cases "side (h ! r')") auto
  qed
  with d show "r' < length h \<and> order_id (h ! r') = oid' \<and>
     (\<exists>l. (if side (h ! r') = Buy then bids ?b' else asks ?b') (price (h ! r')) = Some l
        \<and> r' \<in> set l)" by blast
qed

lemma index_wf_remove_buy:
  assumes iw: "index_wf h b" and o: "orders b oid = Some r" and sd: "side (h ! r) = Buy"
    and lv: "bids b (price (h ! r)) = Some l"
  shows "index_wf h (b\<lparr>orders := (orders b)(oid := None),
            bids := (if remove1 r l = [] then (bids b)(price (h ! r) := None)
                     else (bids b)(price (h ! r) \<mapsto> remove1 r l)),
            bidPrices := ps'\<rparr>)"
  unfolding index_wf_def
proof (intro allI impI)
  fix oid' r'
  let ?b' = "b\<lparr>orders := (orders b)(oid := None),
            bids := (if remove1 r l = [] then (bids b)(price (h ! r) := None)
                     else (bids b)(price (h ! r) \<mapsto> remove1 r l)),
            bidPrices := ps'\<rparr>"
  assume a: "orders ?b' oid' = Some r'"
  then have ne: "oid' \<noteq> oid" and o': "orders b oid' = Some r'" by (auto split: if_splits)
  note d = index_wf_D [OF iw o'] index_wf_D [OF iw o]
  have rr: "r' \<noteq> r" using d ne by auto
  obtain l' where l': "(if side (h ! r') = Buy then bids b else asks b) (price (h ! r')) = Some l'"
    "r' \<in> set l'" using d(3) by blast
  have "\<exists>l''. (if side (h ! r') = Buy then bids ?b' else asks ?b') (price (h ! r')) = Some l''
      \<and> r' \<in> set l''"
  proof (cases "side (h ! r') = Buy \<and> price (h ! r') = price (h ! r)")
    case True
    with l' lv have "l' = l" by (auto split: if_splits)
    with l'(2) rr have "r' \<in> set (remove1 r l)" by simp
    then show ?thesis using True by (auto split: if_splits)
  next
    case False
    then show ?thesis using l' by (cases "side (h ! r')") auto
  qed
  with d show "r' < length h \<and> order_id (h ! r') = oid' \<and>
     (\<exists>l. (if side (h ! r') = Buy then bids ?b' else asks ?b') (price (h ! r')) = Some l
        \<and> r' \<in> set l)" by blast
qed

lemma removeOrder_wf:
  assumes wf: "book_wf h b" and o: "orders b oid = Some r"
  shows "book_wf h (removeOrder h oid b)"
proof -
  have iw: "index_wf h b"
    and hb: "half_wf h Buy (orders b) (\<lambda>a. - num a) (bids b) (bidPrices b)"
    and hs: "half_wf h Sell (orders b) num (asks b) (askPrices b)"
    using wf by (simp_all add: book_wf_def)
  show ?thesis
  proof (cases "side (h ! r)")
    case Buy
    then obtain l where lv: "bids b (price (h ! r)) = Some l" and rl: "r \<in> set l"
      using index_wf_D(3) [OF iw o] by auto
    have 1: "half_wf h Sell ((orders b)(oid := None)) num (asks b) (askPrices b)"
      using hs o half_wf_not_member [OF hs, of r] Buy by (intro half_wf_idx_remove) auto
    note 2 = half_wf_remove [OF hb lv rl o]
    note 3 = index_wf_remove_buy [OF iw o Buy lv]
    show ?thesis
      unfolding removeOrder_buy_eq [OF wf o Buy lv]
      using 1 2 3 [of "filter (\<lambda>q. q \<noteq> price (h ! r)) (bidPrices b)"] 3 [of "bidPrices b"]
      by (cases "remove1 r l = []") (simp_all add: book_wf_def)
  next
    case Sell
    then obtain l where lv: "asks b (price (h ! r)) = Some l" and rl: "r \<in> set l"
      using index_wf_D(3) [OF iw o] by auto
    have 1: "half_wf h Buy ((orders b)(oid := None)) (\<lambda>a. - num a) (bids b) (bidPrices b)"
      using hb o half_wf_not_member [OF hb, of r] Sell by (intro half_wf_idx_remove) auto
    note 2 = half_wf_remove [OF hs lv rl o]
    note 3 = index_wf_remove_sell [OF iw o Sell lv]
    show ?thesis
      unfolding removeOrder_sell_eq [OF wf o Sell lv]
      using 1 2 3 [of "filter (\<lambda>q. q \<noteq> price (h ! r)) (askPrices b)"] 3 [of "askPrices b"]
      by (cases "remove1 r l = []") (simp_all add: book_wf_def)
  qed
qed

lemma level_wf_idx_add:
  assumes "level_wf h sd idx p l" "idx oid = None"
  shows "level_wf h sd (idx(oid \<mapsto> r)) p l"
  using assms unfolding level_wf_def by auto

lemma half_wf_idx_add:
  assumes "half_wf h sd idx key m ps" "idx oid = None"
  shows "half_wf h sd (idx(oid \<mapsto> r)) key m ps"
  using assms unfolding half_wf_def by (blast intro: level_wf_idx_add)

lemma half_wf_add:
  assumes wf: "half_wf h sd idx key m ps" and r: "r < length h" "price (h ! r) = p"
    "side (h ! r) = sd" and idx: "idx (order_id (h ! r)) = None"
    and below: "\<forall>q l. m q = Some l \<longrightarrow> (\<forall>x\<in>set l. x < r)"
  shows "half_wf h sd (idx(order_id (h ! r) \<mapsto> r)) key
           (case m p of None \<Rightarrow> m(p \<mapsto> [r]) | Some l \<Rightarrow> m(p \<mapsto> l @ [r]))
           (case m p of None \<Rightarrow> sort_key key (ps @ [p]) | Some l \<Rightarrow> ps)"
proof -
  let ?idx = "idx(order_id (h ! r) \<mapsto> r)"
  have old: "level_wf h sd ?idx q l" if "m q = Some l" for q l
    using half_wf_level(1) [OF wf that] idx by (rule level_wf_idx_add)
  show ?thesis
  proof (cases "m p")
    case None
    then have pn: "p \<notin> set ps" using wf by (auto simp: half_wf_def)
    have "level_wf h sd ?idx p [r]" using r by (simp add: level_wf_def)
    moreover have "distinct (sort_key key (ps @ [p]))" using wf pn by (simp add: half_wf_def)
    moreover have "sorted (map key (sort_key key (ps @ [p])))" by (rule sorted_sort_key)
    moreover have "dom (m(p \<mapsto> [r])) = set (sort_key key (ps @ [p]))"
      using wf by (auto simp: half_wf_def)
    ultimately show ?thesis using None old by (auto simp: half_wf_def)
  next
    case (Some l)
    have lw: "level_wf h sd ?idx p l" using old Some by blast
    have "\<forall>x\<in>set l. x < r" using below Some by blast
    then have "sorted (l @ [r])" "distinct (l @ [r])"
      using lw by (auto simp: level_wf_def sorted_append)
    then have "level_wf h sd ?idx p (l @ [r])" using lw r by (auto simp: level_wf_def)
    moreover have "dom (m(p \<mapsto> l @ [r])) = set ps" using wf Some by (auto simp: half_wf_def)
    ultimately show ?thesis using Some old wf by (auto simp: half_wf_def)
  qed
qed

lemma book_wf_refs_below:
  assumes wf: "book_wf h b" and r: "Suc r = length h" and fresh: "orders b (order_id (h ! r)) = None"
  shows "\<forall>q l. bids b q = Some l \<longrightarrow> (\<forall>x\<in>set l. x < r)"
    and "\<forall>q l. asks b q = Some l \<longrightarrow> (\<forall>x\<in>set l. x < r)"
proof -
  have hb: "half_wf h Buy (orders b) (\<lambda>a. - num a) (bids b) (bidPrices b)"
    and hs: "half_wf h Sell (orders b) num (asks b) (askPrices b)"
    using wf by (simp_all add: book_wf_def)
  have "x < r" if "level_wf h sd (orders b) q l" "x \<in> set l" for sd q l x
  proof -
    have "x < length h" "orders b (order_id (h ! x)) = Some x"
      using that by (auto simp: level_wf_def)
    with fresh r show ?thesis by (cases "x = r") auto
  qed
  then show "\<forall>q l. bids b q = Some l \<longrightarrow> (\<forall>x\<in>set l. x < r)"
    and "\<forall>q l. asks b q = Some l \<longrightarrow> (\<forall>x\<in>set l. x < r)"
    using half_wf_level(1) [OF hb] half_wf_level(1) [OF hs] by blast+
qed

lemma addOrder_wf:
  assumes wf: "book_wf h b" and r: "Suc r = length h"
    and fresh: "orders b (order_id (h ! r)) = None"
  shows "book_wf h (addOrder h r b)"
proof -
  have iw: "index_wf h b"
    and hb: "half_wf h Buy (orders b) (\<lambda>a. - num a) (bids b) (bidPrices b)"
    and hs: "half_wf h Sell (orders b) num (asks b) (askPrices b)"
    using wf by (simp_all add: book_wf_def)
  have rl: "r < length h" using r by simp
  note below = book_wf_refs_below [OF wf r fresh]
  let ?idx = "(orders b)(order_id (h ! r) \<mapsto> r)"
  show ?thesis
  proof (cases "side (h ! r)")
    case Buy
    have 1: "half_wf h Sell ?idx num (asks b) (askPrices b)"
      using hs fresh by (rule half_wf_idx_add)
    have 2: "half_wf h Buy ?idx (\<lambda>a. - num a)
        (case bids b (price (h ! r)) of None \<Rightarrow> (bids b)(price (h ! r) \<mapsto> [r])
         | Some l \<Rightarrow> (bids b)(price (h ! r) \<mapsto> l @ [r]))
        (case bids b (price (h ! r)) of None \<Rightarrow> sort_key (\<lambda>a. - num a) (bidPrices b @ [price (h ! r)])
         | Some l \<Rightarrow> bidPrices b)"
      using hb rl _ Buy fresh below(1) by (rule half_wf_add) simp
    have 3: "index_wf h (addOrder h r b)"
      unfolding index_wf_def
    proof (intro allI impI)
      fix oid x
      assume a: "orders (addOrder h r b) oid = Some x"
      have ob: "orders (addOrder h r b) = ?idx"
        by (simp add: addOrder_def addBid_def addAsk_def Let_def split: option.splits)
      show "x < length h \<and> order_id (h ! x) = oid \<and>
        (\<exists>l. (if side (h ! x) = Buy then bids (addOrder h r b) else asks (addOrder h r b))
               (price (h ! x)) = Some l \<and> x \<in> set l)"
      proof (cases "oid = order_id (h ! r)")
        case True
        with a ob have "x = r" by simp
        with True rl Buy show ?thesis
          by (auto simp: addOrder_def addBid_def Let_def split: option.splits)
      next
        case False
        with a ob have o: "orders b oid = Some x" by simp
        note d = index_wf_D [OF iw o]
        from d(3) have "\<exists>l. (if side (h ! x) = Buy then bids (addOrder h r b)
            else asks (addOrder h r b)) (price (h ! x)) = Some l \<and> x \<in> set l"
          using Buy by (auto simp: addOrder_def addBid_def Let_def split: option.splits if_splits)
        with d show ?thesis by blast
      qed
    qed
    show ?thesis
      using 1 2 3 Buy unfolding book_wf_def
      by (auto simp: addOrder_def addBid_def Let_def split: option.splits)
  next
    case Sell
    have 1: "half_wf h Buy ?idx (\<lambda>a. - num a) (bids b) (bidPrices b)"
      using hb fresh by (rule half_wf_idx_add)
    have 2: "half_wf h Sell ?idx num
        (case asks b (price (h ! r)) of None \<Rightarrow> (asks b)(price (h ! r) \<mapsto> [r])
         | Some l \<Rightarrow> (asks b)(price (h ! r) \<mapsto> l @ [r]))
        (case asks b (price (h ! r)) of None \<Rightarrow> sort_key num (askPrices b @ [price (h ! r)])
         | Some l \<Rightarrow> askPrices b)"
      using hs rl _ Sell fresh below(2) by (rule half_wf_add) simp
    have 3: "index_wf h (addOrder h r b)"
      unfolding index_wf_def
    proof (intro allI impI)
      fix oid x
      assume a: "orders (addOrder h r b) oid = Some x"
      have ob: "orders (addOrder h r b) = ?idx"
        by (simp add: addOrder_def addBid_def addAsk_def Let_def split: option.splits)
      show "x < length h \<and> order_id (h ! x) = oid \<and>
        (\<exists>l. (if side (h ! x) = Buy then bids (addOrder h r b) else asks (addOrder h r b))
               (price (h ! x)) = Some l \<and> x \<in> set l)"
      proof (cases "oid = order_id (h ! r)")
        case True
        with a ob have "x = r" by simp
        with True rl Sell show ?thesis
          by (auto simp: addOrder_def addAsk_def Let_def split: option.splits)
      next
        case False
        with a ob have o: "orders b oid = Some x" by simp
        note d = index_wf_D [OF iw o]
        from d(3) have "\<exists>l. (if side (h ! x) = Buy then bids (addOrder h r b)
            else asks (addOrder h r b)) (price (h ! x)) = Some l \<and> x \<in> set l"
          using Sell by (auto simp: addOrder_def addAsk_def Let_def split: option.splits if_splits)
        with d show ?thesis by blast
      qed
    qed
    show ?thesis
      using 1 2 3 Sell unfolding book_wf_def
      by (auto simp: addOrder_def addAsk_def Let_def split: option.splits)
  qed
qed

lemma orders_removeOrder [simp]: "orders (removeOrder h oid b) = (orders b)(oid := None)"
  by (auto simp: removeOrder_def removeBid_def removeAsk_def Let_def split: option.splits)

lemma removeOrder_absent: "orders b oid = None \<Longrightarrow> removeOrder h oid b = b"
  by (simp add: removeOrder_def)

lemma askPrices_removeOrder: "set (askPrices (removeOrder h oid b)) \<subseteq> set (askPrices b)"
  by (auto simp: removeOrder_def removeBid_def removeAsk_def Let_def split: option.splits)

lemma bidPrices_removeOrder: "set (bidPrices (removeOrder h oid b)) \<subseteq> set (bidPrices b)"
  by (auto simp: removeOrder_def removeBid_def removeAsk_def Let_def split: option.splits)

lemma uncrossed_removeOrder: "uncrossed b \<Longrightarrow> uncrossed (removeOrder h oid b)"
  using askPrices_removeOrder [of h oid b] bidPrices_removeOrder [of h oid b]
  unfolding uncrossed_def by blast

lemma getBestAsk_wf:
  assumes wf: "book_wf h b" and best: "getBestAsk b = Some a"
  shows "\<exists>ps l. askPrices b = price (h ! a) # ps \<and> asks b (price (h ! a)) = Some (a # l)"
    and "a < length h" and "side (h ! a) = Sell" and "orders b (order_id (h ! a)) = Some a"
proof -
  have hs: "half_wf h Sell (orders b) num (asks b) (askPrices b)"
    using wf by (simp add: book_wf_def)
  from best obtain p ps l where e: "askPrices b = p # ps" "asks b p = Some (a # l)"
    by (auto simp: getBestAsk_def split: list.splits option.splits)
  have lw: "level_wf h Sell (orders b) p (a # l)" using half_wf_level(1) [OF hs e(2)] .
  then have "price (h ! a) = p" by (simp add: level_wf_def)
  with e show "\<exists>ps l. askPrices b = price (h ! a) # ps \<and> asks b (price (h ! a)) = Some (a # l)"
    by blast
  show "a < length h" "side (h ! a) = Sell" "orders b (order_id (h ! a)) = Some a"
    using lw by (simp_all add: level_wf_def)
qed

lemma getBestBid_wf:
  assumes wf: "book_wf h b" and best: "getBestBid b = Some a"
  shows "\<exists>ps l. bidPrices b = price (h ! a) # ps \<and> bids b (price (h ! a)) = Some (a # l)"
    and "a < length h" and "side (h ! a) = Buy" and "orders b (order_id (h ! a)) = Some a"
proof -
  have hs: "half_wf h Buy (orders b) (\<lambda>a. - num a) (bids b) (bidPrices b)"
    using wf by (simp add: book_wf_def)
  from best obtain p ps l where e: "bidPrices b = p # ps" "bids b p = Some (a # l)"
    by (auto simp: getBestBid_def split: list.splits option.splits)
  have lw: "level_wf h Buy (orders b) p (a # l)" using half_wf_level(1) [OF hs e(2)] .
  then have "price (h ! a) = p" by (simp add: level_wf_def)
  with e show "\<exists>ps l. bidPrices b = price (h ! a) # ps \<and> bids b (price (h ! a)) = Some (a # l)"
    by blast
  show "a < length h" "side (h ! a) = Buy" "orders b (order_id (h ! a)) = Some a"
    using lw by (simp_all add: level_wf_def)
qed

lemma getBestAsk_nonempty:
  assumes wf: "book_wf h b" and ne: "askPrices b \<noteq> []"
  shows "getBestAsk b \<noteq> None"
proof -
  have hs: "half_wf h Sell (orders b) num (asks b) (askPrices b)"
    using wf by (simp add: book_wf_def)
  from ne obtain p ps where e: "askPrices b = p # ps" by (cases "askPrices b") auto
  then have "p \<in> dom (asks b)" using hs by (simp add: half_wf_def)
  then obtain l where l: "asks b p = Some l" by blast
  then have "l \<noteq> []" using half_wf_level(1) [OF hs l] by (simp add: level_wf_def)
  with e l show ?thesis by (auto simp: getBestAsk_def split: list.splits)
qed

lemma getBestBid_nonempty:
  assumes wf: "book_wf h b" and ne: "bidPrices b \<noteq> []"
  shows "getBestBid b \<noteq> None"
proof -
  have hs: "half_wf h Buy (orders b) (\<lambda>a. - num a) (bids b) (bidPrices b)"
    using wf by (simp add: book_wf_def)
  from ne obtain p ps where e: "bidPrices b = p # ps" by (cases "bidPrices b") auto
  then have "p \<in> dom (bids b)" using hs by (simp add: half_wf_def)
  then obtain l where l: "bids b p = Some l" by blast
  then have "l \<noteq> []" using half_wf_level(1) [OF hs l] by (simp add: level_wf_def)
  with e l show ?thesis by (auto simp: getBestBid_def split: list.splits)
qed

lemma open_consistent_remaining:
  assumes "order_consistent ord" "is_open ord"
  shows "0 < remaining_quantity ord"
  using assms by (auto simp: order_consistent_def is_open_def remaining_quantity_def)

lemma is_filled_fill: "is_filled (fill q ord) \<longleftrightarrow> remaining_quantity ord \<le> q"
  by (auto simp: is_filled_def remaining_quantity_def)

lemma status_fill:
  "status (fill q ord) = (if remaining_quantity ord \<le> q then Filled
     else if 0 < filled_quantity ord + q then PartiallyFilled else status ord)"
  by (auto simp: fill_def is_filled_def remaining_quantity_def Let_def)

lemma executeTrade_buy_eq:
  assumes inv: "engine_inv st" and r: "r < length (heap st)"
    and fresh: "orders (orderBook st) (order_id (heap st ! r)) = None"
    and best: "getBestAsk (orderBook st) = Some a"
  shows "executeTrade r a p q st =
     st\<lparr>heap := (heap st)[r := fill q (heap st ! r), a := fill q (heap st ! a)],
        orderBook := (if remaining_quantity (heap st ! a) \<le> q
                      then removeOrder (heap st) (order_id (heap st ! a)) (orderBook st)
                      else orderBook st),
        trades := trades st @ [\<lparr>buy_order_id = order_id (heap st ! r),
               sell_order_id = order_id (heap st ! a),
               trade_instrument = engine_instrument st,
               trade_price = p, trade_quantity = q\<rparr>],
        callbacks := callbacks st @ [OnTrade \<lparr>buy_order_id = order_id (heap st ! r),
               sell_order_id = order_id (heap st ! a),
               trade_instrument = engine_instrument st,
               trade_price = p, trade_quantity = q\<rparr>,
            OnOrderUpdate (fill q (heap st ! r)), OnOrderUpdate (fill q (heap st ! a))]\<rparr>"
    and "a \<noteq> r"
proof -
  have wf: "book_wf (heap st) (orderBook st)" using inv by (simp add: engine_inv_def)
  note a = getBestAsk_wf [OF wf best]
  show ne: "a \<noteq> r" using a(4) fresh by auto
  let ?h2 = "(heap st)[r := fill q (heap st ! r), a := fill q (heap st ! a)]"
  have h2: "(heap st)[r := fill q (heap st ! r), a := fill q ((heap st)[r := fill q (heap st ! r)] ! a)]
      = ?h2" using ne by simp
  have n: "?h2 ! r = fill q (heap st ! r)" "?h2 ! a = fill q (heap st ! a)"
    using ne r a(2) by simp_all
  have se: "static_eq (heap st) ?h2"
    by (rule static_eq_trans [OF static_eq_update static_eq_update]) (use ne in simp_all)
  have ro: "removeOrder (heap st) (order_id (heap st ! r)) (orderBook st) = orderBook st"
    using fresh by (simp add: removeOrder_def)
  show "executeTrade r a p q st =
     st\<lparr>heap := ?h2,
        orderBook := (if remaining_quantity (heap st ! a) \<le> q
                      then removeOrder (heap st) (order_id (heap st ! a)) (orderBook st)
                      else orderBook st),
        trades := trades st @ [\<lparr>buy_order_id = order_id (heap st ! r),
               sell_order_id = order_id (heap st ! a),
               trade_instrument = engine_instrument st,
               trade_price = p, trade_quantity = q\<rparr>],
        callbacks := callbacks st @ [OnTrade \<lparr>buy_order_id = order_id (heap st ! r),
               sell_order_id = order_id (heap st ! a),
               trade_instrument = engine_instrument st,
               trade_price = p, trade_quantity = q\<rparr>,
            OnOrderUpdate (fill q (heap st ! r)), OnOrderUpdate (fill q (heap st ! a))]\<rparr>"
    unfolding executeTrade_def Let_def h2 n
    by (simp add: ro is_filled_fill removeOrder_static [OF se])
qed

lemma open_count_update:
  assumes "x < length h" "is_open (h ! x)"
  shows "open_count (h[x := v]) \<le> open_count h"
    and "\<not> is_open v \<Longrightarrow> open_count (h[x := v]) < open_count h"
proof -
  have h: "h = take x h @ (h ! x) # drop (Suc x) h"
    using assms(1) by (simp add: id_take_nth_drop)
  have u: "h[x := v] = take x h @ v # drop (Suc x) h"
    using assms(1) by (simp add: upd_conv_take_nth_drop)
  have "open_count h = open_count (take x h) + 1 + open_count (drop (Suc x) h)"
    unfolding open_count_def by (subst h) (simp add: assms(2))
  moreover have "open_count (h[x := v])
      = open_count (take x h) + (if is_open v then 1 else 0) + open_count (drop (Suc x) h)"
    unfolding open_count_def u by simp
  ultimately show "open_count (h[x := v]) \<le> open_count h"
    and "\<not> is_open v \<Longrightarrow> open_count (h[x := v]) < open_count h" by auto
qed

lemma incoming_open:
  assumes "engine_inv st" "incoming_ok r st" "0 < remaining_quantity (heap st ! r)"
  shows "is_open (heap st ! r)"
proof -
  have "order_consistent (heap st ! r)" using assms(1,2) by (simp add: engine_inv_def incoming_ok_def)
  with assms(2,3) show ?thesis
    by (auto simp: incoming_ok_def order_consistent_def is_open_def remaining_quantity_def)
qed

lemma buy_step:
  assumes inv: "engine_inv st" and inc: "incoming_ok r st"
    and rem: "0 < remaining_quantity (heap st ! r)"
    and best: "getBestAsk (orderBook st) = Some a"
  defines "q \<equiv> min (remaining_quantity (heap st ! r)) (remaining_quantity (heap st ! a))"
  defines "st' \<equiv> executeTrade r a (price (heap st ! a)) q st"
  shows "engine_inv st'" and "incoming_ok r st'"
    and "open_count (heap st') < open_count (heap st)"
    and "static_eq (heap st) (heap st')"
    and "\<forall>x. x \<noteq> r \<and> x \<noteq> a \<longrightarrow> heap st' ! x = heap st ! x"
    and "filled_quantity (heap st' ! r) = filled_quantity (heap st ! r) + q"
    and "quantity (heap st' ! r) = quantity (heap st ! r)"
    and "0 < q"
    and "trades st' = trades st @ [\<lparr>buy_order_id = order_id (heap st ! r),
               sell_order_id = order_id (heap st ! a),
               trade_instrument = engine_instrument st,
               trade_price = price (heap st ! a), trade_quantity = q\<rparr>]"
    and "engine_instrument st' = engine_instrument st"
    and "bids (orderBook st') = bids (orderBook st)"
    and "bidPrices (orderBook st') = bidPrices (orderBook st)"
    and "orders (orderBook st') \<subseteq>\<^sub>m orders (orderBook st)"
    and "set (askPrices (orderBook st')) \<subseteq> set (askPrices (orderBook st))"
proof -
  let ?h = "heap st" and ?b = "orderBook st"
  have wf: "book_wf ?h ?b" and ropen: "\<forall>oid x. orders ?b oid = Some x \<longrightarrow> is_open (?h ! x)"
    and cons: "\<forall>x<length ?h. order_consistent (?h ! x)" and unc: "uncrossed ?b"
    using inv by (simp_all add: engine_inv_def)
  have iw: "index_wf ?h ?b" using wf by (simp add: book_wf_def)
  have r: "r < length ?h" and fresh: "orders ?b (order_id (?h ! r)) = None"
    using inc by (simp_all add: incoming_ok_def)
  note a = getBestAsk_wf [OF wf best]
  note eq = executeTrade_buy_eq [OF inv r fresh best]
  have ne: "a \<noteq> r" by (rule eq(2))
  have ao: "is_open (?h ! a)" using ropen a(4) by blast
  have ro: "is_open (?h ! r)" using incoming_open [OF inv inc rem] .
  have rema: "0 < remaining_quantity (?h ! a)"
    using cons a(2) ao by (simp add: open_consistent_remaining)
  show q: "0 < q" using rem rema by (simp add: q_def)
  have qr: "q \<le> remaining_quantity (?h ! r)" and qa: "q \<le> remaining_quantity (?h ! a)"
    by (simp_all add: q_def)
  let ?h2 = "?h[r := fill q (?h ! r), a := fill q (?h ! a)]"
  have st': "heap st' = ?h2"
    "orderBook st' = (if remaining_quantity (?h ! a) \<le> q
                      then removeOrder ?h (order_id (?h ! a)) ?b else ?b)"
    unfolding st'_def eq(1) by simp_all
  have nth: "?h2 ! x = (if x = a then fill q (?h ! a) else if x = r then fill q (?h ! r) else ?h ! x)"
    for x using r a(2) by (simp add: nth_list_update)
  show se: "static_eq ?h (heap st')" unfolding st'
    by (rule static_eq_trans [OF static_eq_update static_eq_update]) (use ne in simp_all)
  show "\<forall>x. x \<noteq> r \<and> x \<noteq> a \<longrightarrow> heap st' ! x = heap st ! x"
    unfolding st' by simp
  show "filled_quantity (heap st' ! r) = filled_quantity (heap st ! r) + q"
    "quantity (heap st' ! r) = quantity (heap st ! r)"
    unfolding st' nth using ne by simp_all
  show "trades st' = trades st @ [\<lparr>buy_order_id = order_id (heap st ! r),
               sell_order_id = order_id (heap st ! a),
               trade_instrument = engine_instrument st,
               trade_price = price (heap st ! a), trade_quantity = q\<rparr>]"
    "engine_instrument st' = engine_instrument st"
    unfolding st'_def eq(1) by simp_all
  obtain ps l where lv: "askPrices ?b = price (?h ! a) # ps" "asks ?b (price (?h ! a)) = Some (a # l)"
    using a(1) by blast
  note req = removeOrder_sell_eq [OF wf a(4) a(3) lv(2)]
  show "bids (orderBook st') = bids ?b" "bidPrices (orderBook st') = bidPrices ?b"
    unfolding st' req by simp_all
  show ole: "orders (orderBook st') \<subseteq>\<^sub>m orders ?b"
    unfolding st' by (auto simp: map_le_def)
  show "set (askPrices (orderBook st')) \<subseteq> set (askPrices ?b)"
    unfolding st' using askPrices_removeOrder [of ?h "order_id (?h ! a)" ?b] by auto
  have wf': "book_wf (heap st') (orderBook st')"
    unfolding book_wf_static [OF se] unfolding st'
    using wf removeOrder_wf [OF wf a(4)] by simp
  have notr: "x \<noteq> r" if "orders ?b oid = Some x" for oid x
    using index_wf_D(2) [OF iw that] that fresh by auto
  have ropen': "is_open (heap st' ! x)" if o: "orders (orderBook st') oid = Some x" for oid x
  proof -
    have o0: "orders ?b oid = Some x" using ole o by (auto simp: map_le_def dom_def)
    show ?thesis
    proof (cases "x = a")
      case True
      then have "oid = order_id (?h ! a)" using index_wf_D(2) [OF iw o0] by simp
      with o have "\<not> remaining_quantity (?h ! a) \<le> q" unfolding st' by (auto split: if_splits)
      moreover have "0 < filled_quantity (?h ! a) + q"
        using cons a(2) q by (auto simp: order_consistent_def)
      ultimately show ?thesis unfolding st' nth True by (simp add: is_open_def status_fill)
    next
      case False
      then show ?thesis unfolding st' nth using notr [OF o0] ropen o0 by simp
    qed
  qed
  have cons': "order_consistent (heap st' ! x)" if "x < length (heap st')" for x
    unfolding st' nth using that cons ro ao q qr qa r a(2)
    by (auto simp: st' intro: fill_consistent)
  show "engine_inv st'"
    unfolding engine_inv_def using wf' ropen' cons' unc
    by (auto simp: st' intro: uncrossed_removeOrder)
  have "status (heap st' ! r) = status (fill q (?h ! r))"
    unfolding st' nth using ne by simp
  then have "status (heap st' ! r) \<in> {Open, PartiallyFilled, Filled}"
    using inc by (auto simp: status_fill incoming_ok_def)
  moreover have "orders (orderBook st') (order_id (heap st' ! r)) = None"
  proof (rule ccontr)
    assume "orders (orderBook st') (order_id (heap st' ! r)) \<noteq> None"
    then obtain x where "orders (orderBook st') (order_id (heap st' ! r)) = Some x" by blast
    then have "orders ?b (order_id (heap st' ! r)) = Some x"
      using ole by (auto simp: map_le_def dom_def)
    moreover have "order_id (heap st' ! r) = order_id (?h ! r)"
      using se by (simp add: static_eq_def)
    ultimately show False using fresh by simp
  qed
  ultimately show "incoming_ok r st'"
    unfolding incoming_ok_def using r by (simp add: st')
  have "\<not> is_open (fill q (?h ! r)) \<or> \<not> is_open (fill q (?h ! a))"
    using qr qa unfolding q_def by (auto simp: is_open_def status_fill min_def split: if_splits)
  then show "open_count (heap st') < open_count ?h"
  proof
    assume nr: "\<not> is_open (fill q (?h ! r))"
    have "open_count ?h2 \<le> open_count (?h[r := fill q (?h ! r)])"
      by (rule open_count_update(1)) (use a(2) ne ao in simp_all)
    also have "\<dots> < open_count ?h"
      by (rule open_count_update(2) [OF r ro nr])
    finally show ?thesis by (simp add: st')
  next
    assume na: "\<not> is_open (fill q (?h ! a))"
    have "open_count ?h2 < open_count (?h[r := fill q (?h ! r)])"
      by (rule open_count_update(2)) (use a(2) ne ao na in simp_all)
    also have "\<dots> \<le> open_count ?h"
      by (rule open_count_update(1) [OF r ro])
    finally show ?thesis by (simp add: st')
  qed
qed

lemma executeTrade_sell_eq:
  assumes inv: "engine_inv st" and r: "r < length (heap st)"
    and fresh: "orders (orderBook st) (order_id (heap st ! r)) = None"
    and best: "getBestBid (orderBook st) = Some a"
  shows "executeTrade a r p q st =
     st\<lparr>heap := (heap st)[a := fill q (heap st ! a), r := fill q (heap st ! r)],
        orderBook := (if remaining_quantity (heap st ! a) \<le> q
                      then removeOrder (heap st) (order_id (heap st ! a)) (orderBook st)
                      else orderBook st),
        trades := trades st @ [\<lparr>buy_order_id = order_id (heap st ! a),
               sell_order_id = order_id (heap st ! r),
               trade_instrument = engine_instrument st,
               trade_price = p, trade_quantity = q\<rparr>],
        callbacks := callbacks st @ [OnTrade \<lparr>buy_order_id = order_id (heap st ! a),
               sell_order_id = order_id (heap st ! r),
               trade_instrument = engine_instrument st,
               trade_price = p, trade_quantity = q\<rparr>,
            OnOrderUpdate (fill q (heap st ! a)), OnOrderUpdate (fill q (heap st ! r))]\<rparr>"
    and "a \<noteq> r"
proof -
  have wf: "book_wf (heap st) (orderBook st)" using inv by (simp add: engine_inv_def)
  note a = getBestBid_wf [OF wf best]
  show ne: "a \<noteq> r" using a(4) fresh by auto
  let ?h2 = "(heap st)[a := fill q (heap st ! a), r := fill q (heap st ! r)]"
  have h2: "(heap st)[a := fill q (heap st ! a), r := fill q ((heap st)[a := fill q (heap st ! a)] ! r)]
      = ?h2" using ne by simp
  have n: "?h2 ! r = fill q (heap st ! r)" "?h2 ! a = fill q (heap st ! a)"
    using ne r a(2) by simp_all
  have se: "static_eq (heap st) ?h2"
    by (rule static_eq_trans [OF static_eq_update static_eq_update]) (use ne in simp_all)
  have ro: "removeOrder (heap st) (order_id (heap st ! r)) (orderBook st) = orderBook st"
    "removeOrder (heap st) (order_id (heap st ! r))
       (removeOrder (heap st) (order_id (heap st ! a)) (orderBook st))
     = removeOrder (heap st) (order_id (heap st ! a)) (orderBook st)"
    using fresh by (simp_all add: removeOrder_absent)
  show "executeTrade a r p q st =
     st\<lparr>heap := ?h2,
        orderBook := (if remaining_quantity (heap st ! a) \<le> q
                      then removeOrder (heap st) (order_id (heap st ! a)) (orderBook st)
                      else orderBook st),
        trades := trades st @ [\<lparr>buy_order_id = order_id (heap st ! a),
               sell_order_id = order_id (heap st ! r),
               trade_instrument = engine_instrument st,
               trade_price = p, trade_quantity = q\<rparr>],
        callbacks := callbacks st @ [OnTrade \<lparr>buy_order_id = order_id (heap st ! a),
               sell_order_id = order_id (heap st ! r),
               trade_instrument = engine_instrument st,
               trade_price = p, trade_quantity = q\<rparr>,
            OnOrderUpdate (fill q (heap st ! a)), OnOrderUpdate (fill q (heap st ! r))]\<rparr>"
    unfolding executeTrade_def Let_def h2 n
    by (simp add: ro is_filled_fill removeOrder_static [OF se])
qed

lemma sell_step:
  assumes inv: "engine_inv st" and inc: "incoming_ok r st"
    and rem: "0 < remaining_quantity (heap st ! r)"
    and best: "getBestBid (orderBook st) = Some a"
  defines "q \<equiv> min (remaining_quantity (heap st ! r)) (remaining_quantity (heap st ! a))"
  defines "st' \<equiv> executeTrade a r (price (heap st ! a)) q st"
  shows "engine_inv st'" and "incoming_ok r st'"
    and "open_count (heap st') < open_count (heap st)"
    and "static_eq (heap st) (heap st')"
    and "\<forall>x. x \<noteq> r \<and> x \<noteq> a \<longrightarrow> heap st' ! x = heap st ! x"
    and "filled_quantity (heap st' ! r) = filled_quantity (heap st ! r) + q"
    and "quantity (heap st' ! r) = quantity (heap st ! r)"
    and "0 < q"
    and "trades st' = trades st @ [\<lparr>buy_order_id = order_id (heap st ! a),
               sell_order_id = order_id (heap st ! r),
               trade_instrument = engine_instrument st,
               trade_price = price (heap st ! a), trade_quantity = q\<rparr>]"
    and "engine_instrument st' = engine_instrument st"
    and "asks (orderBook st') = asks (orderBook st)"
    and "askPrices (orderBook st') = askPrices (orderBook st)"
    and "orders (orderBook st') \<subseteq>\<^sub>m orders (orderBook st)"
    and "set (bidPrices (orderBook st')) \<subseteq> set (bidPrices (orderBook st))"
proof -
  let ?h = "heap st" and ?b = "orderBook st"
  have wf: "book_wf ?h ?b" and ropen: "\<forall>oid x. orders ?b oid = Some x \<longrightarrow> is_open (?h ! x)"
    and cons: "\<forall>x<length ?h. order_consistent (?h ! x)" and unc: "uncrossed ?b"
    using inv by (simp_all add: engine_inv_def)
  have iw: "index_wf ?h ?b" using wf by (simp add: book_wf_def)
  have r: "r < length ?h" and fresh: "orders ?b (order_id (?h ! r)) = None"
    using inc by (simp_all add: incoming_ok_def)
  note a = getBestBid_wf [OF wf best]
  note eq = executeTrade_sell_eq [OF inv r fresh best]
  have ne: "a \<noteq> r" by (rule eq(2))
  have ao: "is_open (?h ! a)" using ropen a(4) by blast
  have ro: "is_open (?h ! r)" using incoming_open [OF inv inc rem] .
  have rema: "0 < remaining_quantity (?h ! a)"
    using cons a(2) ao by (simp add: open_consistent_remaining)
  show q: "0 < q" using rem rema by (simp add: q_def)
  have qr: "q \<le> remaining_quantity (?h ! r)" and qa: "q \<le> remaining_quantity (?h ! a)"
    by (simp_all add: q_def)
  let ?h2 = "?h[a := fill q (?h ! a), r := fill q (?h ! r)]"
  have st': "heap st' = ?h2"
    "orderBook st' = (if remaining_quantity (?h ! a) \<le> q
                      then removeOrder ?h (order_id (?h ! a)) ?b else ?b)"
    unfolding st'_def eq(1) by simp_all
  have nth: "?h2 ! x = (if x = a then fill q (?h ! a) else if x = r then fill q (?h ! r) else ?h ! x)"
    for x using r a(2) by (simp add: nth_list_update)
  show se: "static_eq ?h (heap st')" unfolding st'
    by (rule static_eq_trans [OF static_eq_update static_eq_update]) (use ne in simp_all)
  show "\<forall>x. x \<noteq> r \<and> x \<noteq> a \<longrightarrow> heap st' ! x = heap st ! x"
    unfolding st' by simp
  show "filled_quantity (heap st' ! r) = filled_quantity (heap st ! r) + q"
    "quantity (heap st' ! r) = quantity (heap st ! r)"
    unfolding st' nth using ne by simp_all
  show "trades st' = trades st @ [\<lparr>buy_order_id = order_id (heap st ! a),
               sell_order_id = order_id (heap st ! r),
               trade_instrument = engine_instrument st,
               trade_price = price (heap st ! a), trade_quantity = q\<rparr>]"
    "engine_instrument st' = engine_instrument st"
    unfolding st'_def eq(1) by simp_all
  obtain ps l where lv: "bidPrices ?b = price (?h ! a) # ps" "bids ?b (price (?h ! a)) = Some (a # l)"
    using a(1) by blast
  note req = removeOrder_buy_eq [OF wf a(4) a(3) lv(2)]
  show "asks (orderBook st') = asks ?b" "askPrices (orderBook st') = askPrices ?b"
    unfolding st' req by simp_all
  show ole: "orders (orderBook st') \<subseteq>\<^sub>m orders ?b"
    unfolding st' by (auto simp: map_le_def)
  show "set (bidPrices (orderBook st')) \<subseteq> set (bidPrices ?b)"
    unfolding st' using bidPrices_removeOrder [of ?h "order_id (?h ! a)" ?b] by auto
  have wf': "book_wf (heap st') (orderBook st')"
    unfolding book_wf_static [OF se] unfolding st'
    using wf removeOrder_wf [OF wf a(4)] by simp
  have notr: "x \<noteq> r" if "orders ?b oid = Some x" for oid x
    using index_wf_D(2) [OF iw that] that fresh by auto
  have ropen': "is_open (heap st' ! x)" if o: "orders (orderBook st') oid = Some x" for oid x
  proof -
    have o0: "orders ?b oid = Some x" using ole o by (auto simp: map_le_def dom_def)
    show ?thesis
    proof (cases "x = a")
      case True
      then have "oid = order_id (?h ! a)" using index_wf_D(2) [OF iw o0] by simp
      with o have "\<not> remaining_quantity (?h ! a) \<le> q" unfolding st' by (auto split: if_splits)
      moreover have "0 < filled_quantity (?h ! a) + q"
        using cons a(2) q by (auto simp: order_consistent_def)
      ultimately show ?thesis unfolding st' nth True by (simp add: is_open_def status_fill)
    next
      case False
      then show ?thesis unfolding st' nth using notr [OF o0] ropen o0 by simp
    qed
  qed
  have cons': "order_consistent (heap st' ! x)" if "x < length (heap st')" for x
    unfolding st' nth using that cons ro ao q qr qa r a(2)
    by (auto simp: st' intro: fill_consistent)
  show "engine_inv st'"
    unfolding engine_inv_def using wf' ropen' cons' unc
    by (auto simp: st' intro: uncrossed_removeOrder)
  have "status (heap st' ! r) = status (fill q (?h ! r))"
    unfolding st' nth using ne by simp
  then have "status (heap st' ! r) \<in> {Open, PartiallyFilled, Filled}"
    using inc by (auto simp: status_fill incoming_ok_def)
  moreover have "orders (orderBook st') (order_id (heap st' ! r)) = None"
  proof (rule ccontr)
    assume "orders (orderBook st') (order_id (heap st' ! r)) \<noteq> None"
    then obtain x where "orders (orderBook st') (order_id (heap st' ! r)) = Some x" by blast
    then have "orders ?b (order_id (heap st' ! r)) = Some x"
      using ole by (auto simp: map_le_def dom_def)
    moreover have "order_id (heap st' ! r) = order_id (?h ! r)"
      using se by (simp add: static_eq_def)
    ultimately show False using fresh by simp
  qed
  ultimately show "incoming_ok r st'"
    unfolding incoming_ok_def using r by (simp add: st')
  have dj: "\<not> is_open (fill q (?h ! r)) \<or> \<not> is_open (fill q (?h ! a))"
    using qr qa unfolding q_def by (auto simp: is_open_def status_fill min_def split: if_splits)
  have sw: "heap st' = ?h[r := fill q (?h ! r), a := fill q (?h ! a)]"
    unfolding st' using ne by (simp add: list_update_swap)
  from dj show "open_count (heap st') < open_count ?h"
  proof
    assume nr: "\<not> is_open (fill q (?h ! r))"
    have "open_count (?h[r := fill q (?h ! r), a := fill q (?h ! a)]) \<le> open_count (?h[r := fill q (?h ! r)])"
      by (rule open_count_update(1)) (use a(2) ne ao in simp_all)
    also have "\<dots> < open_count ?h"
      by (rule open_count_update(2) [OF r ro nr])
    finally show ?thesis by (simp add: sw)
  next
    assume na: "\<not> is_open (fill q (?h ! a))"
    have "open_count (?h[r := fill q (?h ! r), a := fill q (?h ! a)]) < open_count (?h[r := fill q (?h ! r)])"
      by (rule open_count_update(2)) (use a(2) ne ao na in simp_all)
    also have "\<dots> \<le> open_count ?h"
      by (rule open_count_update(1) [OF r ro])
    finally show ?thesis by (simp add: sw)
  qed
qed


lemma marketBuyLoop_unfold:
  "marketBuyLoop r st = (if marketBuyCont r st then marketBuyLoop r (buyStep r st) else Some st)"
  by (subst marketBuyLoop.simps) (auto simp: marketBuyCont_def buyStep_def split: option.splits)

lemma marketSellLoop_unfold:
  "marketSellLoop r st = (if marketSellCont r st then marketSellLoop r (sellStep r st) else Some st)"
  by (subst marketSellLoop.simps) (auto simp: marketSellCont_def sellStep_def split: option.splits)

lemma limitBuyLoop_unfold:
  "limitBuyLoop r st = (if limitBuyCont r st then limitBuyLoop r (buyStep r st) else Some st)"
  by (subst limitBuyLoop.simps) (auto simp: limitBuyCont_def buyStep_def split: option.splits)

lemma limitSellLoop_unfold:
  "limitSellLoop r st = (if limitSellCont r st then limitSellLoop r (sellStep r st) else Some st)"
  by (subst limitSellLoop.simps) (auto simp: limitSellCont_def sellStep_def split: option.splits)

lemma loop_rule:
  fixes m :: "'s \<Rightarrow> nat"
  assumes unfold: "\<And>s. f s = (if c s then f (g s) else Some s)"
    and step: "\<And>s. I s \<Longrightarrow> c s \<Longrightarrow> I (g s) \<and> m (g s) < m s"
    and init: "I s0"
  shows "\<exists>s'. f s0 = Some s' \<and> I s' \<and> \<not> c s'"
  using init
proof (induction "m s0" arbitrary: s0 rule: less_induct)
  case less
  show ?case
  proof (cases "c s0")
    case True
    with step [OF less.prems] have "I (g s0)" "m (g s0) < m s0" by simp_all
    from less.hyps [OF this(2) this(1)] obtain s' where "f (g s0) = Some s'" "I s'" "\<not> c s'"
      by blast
    with True show ?thesis by (subst unfold) auto
  next
    case False
    with less.prems show ?thesis by (subst unfold) auto
  qed
qed

lemma progress_refl: "progress r st st"
  by (simp add: progress_def)

lemma buy_progress_step:
  assumes inv: "engine_inv st" and inc: "incoming_ok r st"
    and rem: "0 < remaining_quantity (heap st ! r)"
    and best: "getBestAsk (orderBook st) = Some a"
    and pr: "progress r st0 st" and sd: "side (heap st0 ! r) = Buy"
  shows "progress r st0 (buyStep r st)"
proof -
  let ?q = "min (remaining_quantity (heap st ! r)) (remaining_quantity (heap st ! a))"
  let ?st' = "executeTrade r a (price (heap st ! a)) ?q st"
  have bs: "buyStep r st = ?st'" using best by (simp add: buyStep_def)
  note s = buy_step [OF inv inc rem best]
  have wf: "book_wf (heap st) (orderBook st)"
    and ropen: "\<forall>oid x. orders (orderBook st) oid = Some x \<longrightarrow> is_open (heap st ! x)"
    using inv by (simp_all add: engine_inv_def)
  note a = getBestAsk_wf [OF wf best]
  have se0: "static_eq (heap st0) (heap st)" using pr by (simp add: progress_def)
  have ao: "is_open (heap st ! a)" using ropen a(4) by blast
  have a0: "orders (orderBook st0) (order_id (heap st0 ! a)) = Some a"
    "side (heap st0 ! a) = Sell" "price (heap st ! a) = price (heap st0 ! a)"
    "order_id (heap st ! a) = order_id (heap st0 ! a)"
    "order_id (heap st ! r) = order_id (heap st0 ! r)"
    using a(3,4) pr se0 by (auto simp: progress_def static_eq_def map_le_def dom_def)
  obtain ts where ts: "trades st = trades st0 @ ts"
    "filled_quantity (heap st ! r)
       = filled_quantity (heap st0 ! r) + sum_list (map trade_quantity ts)"
    "\<forall>t\<in>set ts. trade_of_buy r st0 t"
    using pr sd by (auto simp: progress_def)
  let ?t = "\<lparr>buy_order_id = order_id (heap st ! r),
               sell_order_id = order_id (heap st ! a),
               trade_instrument = engine_instrument st,
               trade_price = price (heap st ! a), trade_quantity = ?q\<rparr>"
  have tb: "trade_of_buy r st0 ?t"
    unfolding trade_of_buy_def using s(8) a0 pr by (auto simp: progress_def)
  have "trades ?st' = trades st0 @ (ts @ [?t])" using s(9) ts(1) by simp
  moreover have "filled_quantity (heap ?st' ! r)
       = filled_quantity (heap st0 ! r) + sum_list (map trade_quantity (ts @ [?t]))"
    using s(6) ts(2) by simp
  moreover have "\<forall>t\<in>set (ts @ [?t]). trade_of_buy r st0 t" using ts(3) tb by simp
  ultimately have tr: "\<exists>ts. trades ?st' = trades st0 @ ts
            \<and> filled_quantity (heap ?st' ! r)
                = filled_quantity (heap st0 ! r) + sum_list (map trade_quantity ts)
            \<and> (\<forall>t\<in>set ts. if side (heap st0 ! r) = Buy then trade_of_buy r st0 t
                            else trade_of_sell r st0 t)"
    using sd by (intro exI [of _ "ts @ [?t]"]) simp
  have fr: "heap ?st' ! x = heap st0 ! x" if "x \<noteq> r" "\<not> is_open (heap st0 ! x)" for x
  proof -
    have e: "heap st ! x = heap st0 ! x" using pr that by (simp add: progress_def)
    with that(2) ao have "x \<noteq> a" by auto
    with s(5) that(1) e show ?thesis by simp
  qed
  have "static_eq (heap st0) (heap ?st')" using se0 s(4) by (rule static_eq_trans)
  moreover have "orders (orderBook ?st') \<subseteq>\<^sub>m orders (orderBook st0)"
    using s(13) pr by (auto simp: progress_def intro: map_le_trans)
  moreover have "set (askPrices (orderBook ?st')) \<subseteq> set (askPrices (orderBook st0))"
    "set (bidPrices (orderBook ?st')) \<subseteq> set (bidPrices (orderBook st0))"
    using s(12,14) pr by (auto simp: progress_def)
  ultimately show ?thesis
    unfolding bs progress_def using tr fr s(10) pr by (simp add: progress_def)
qed

lemma sell_progress_step:
  assumes inv: "engine_inv st" and inc: "incoming_ok r st"
    and rem: "0 < remaining_quantity (heap st ! r)"
    and best: "getBestBid (orderBook st) = Some a"
    and pr: "progress r st0 st" and sd: "side (heap st0 ! r) = Sell"
  shows "progress r st0 (sellStep r st)"
proof -
  let ?q = "min (remaining_quantity (heap st ! r)) (remaining_quantity (heap st ! a))"
  let ?st' = "executeTrade a r (price (heap st ! a)) ?q st"
  have bs: "sellStep r st = ?st'" using best by (simp add: sellStep_def)
  note s = sell_step [OF inv inc rem best]
  have wf: "book_wf (heap st) (orderBook st)"
    and ropen: "\<forall>oid x. orders (orderBook st) oid = Some x \<longrightarrow> is_open (heap st ! x)"
    using inv by (simp_all add: engine_inv_def)
  note a = getBestBid_wf [OF wf best]
  have se0: "static_eq (heap st0) (heap st)" using pr by (simp add: progress_def)
  have ao: "is_open (heap st ! a)" using ropen a(4) by blast
  have a0: "orders (orderBook st0) (order_id (heap st0 ! a)) = Some a"
    "side (heap st0 ! a) = Buy" "price (heap st ! a) = price (heap st0 ! a)"
    "order_id (heap st ! a) = order_id (heap st0 ! a)"
    "order_id (heap st ! r) = order_id (heap st0 ! r)"
    using a(3,4) pr se0 by (auto simp: progress_def static_eq_def map_le_def dom_def)
  obtain ts where ts: "trades st = trades st0 @ ts"
    "filled_quantity (heap st ! r)
       = filled_quantity (heap st0 ! r) + sum_list (map trade_quantity ts)"
    "\<forall>t\<in>set ts. trade_of_sell r st0 t"
    using pr sd by (auto simp: progress_def)
  let ?t = "\<lparr>buy_order_id = order_id (heap st ! a),
               sell_order_id = order_id (heap st ! r),
               trade_instrument = engine_instrument st,
               trade_price = price (heap st ! a), trade_quantity = ?q\<rparr>"
  have tb: "trade_of_sell r st0 ?t"
    unfolding trade_of_sell_def using s(8) a0 pr by (auto simp: progress_def)
  have "trades ?st' = trades st0 @ (ts @ [?t])" using s(9) ts(1) by simp
  moreover have "filled_quantity (heap ?st' ! r)
       = filled_quantity (heap st0 ! r) + sum_list (map trade_quantity (ts @ [?t]))"
    using s(6) ts(2) by simp
  moreover have "\<forall>t\<in>set (ts @ [?t]). trade_of_sell r st0 t" using ts(3) tb by simp
  ultimately have tr: "\<exists>ts. trades ?st' = trades st0 @ ts
            \<and> filled_quantity (heap ?st' ! r)
                = filled_quantity (heap st0 ! r) + sum_list (map trade_quantity ts)
            \<and> (\<forall>t\<in>set ts. if side (heap st0 ! r) = Buy then trade_of_buy r st0 t
                            else trade_of_sell r st0 t)"
    using sd by (intro exI [of _ "ts @ [?t]"]) simp
  have fr: "heap ?st' ! x = heap st0 ! x" if "x \<noteq> r" "\<not> is_open (heap st0 ! x)" for x
  proof -
    have e: "heap st ! x = heap st0 ! x" using pr that by (simp add: progress_def)
    with that(2) ao have "x \<noteq> a" by auto
    with s(5) that(1) e show ?thesis by simp
  qed
  have "static_eq (heap st0) (heap ?st')" using se0 s(4) by (rule static_eq_trans)
  moreover have "orders (orderBook ?st') \<subseteq>\<^sub>m orders (orderBook st0)"
    using s(13) pr by (auto simp: progress_def intro: map_le_trans)
  moreover have "set (askPrices (orderBook ?st')) \<subseteq> set (askPrices (orderBook st0))"
    "set (bidPrices (orderBook ?st')) \<subseteq> set (bidPrices (orderBook st0))"
    using s(12,14) pr by (auto simp: progress_def)
  ultimately show ?thesis
    unfolding bs progress_def using tr fr s(10) pr by (simp add: progress_def)
qed

lemma buy_loop_step:
  assumes "loop_inv r st0 st" "side (heap st0 ! r) = Buy"
    and "0 < remaining_quantity (heap st ! r)" "getBestAsk (orderBook st) \<noteq> None"
  shows "loop_inv r st0 (buyStep r st) \<and> open_count (heap (buyStep r st)) < open_count (heap st)"
proof -
  from assms(4) obtain a where best: "getBestAsk (orderBook st) = Some a" by blast
  have bs: "buyStep r st = executeTrade r a (price (heap st ! a))
      (min (remaining_quantity (heap st ! r)) (remaining_quantity (heap st ! a))) st"
    using best by (simp add: buyStep_def)
  have i: "engine_inv st" "incoming_ok r st" "progress r st0 st"
    using assms(1) by (simp_all add: loop_inv_def)
  note s = buy_step [OF i(1,2) assms(3) best]
  show ?thesis
    unfolding loop_inv_def
    using s(1,2,3) buy_progress_step [OF i(1,2) assms(3) best i(3) assms(2)]
    by (simp add: bs)
qed

lemma sell_loop_step:
  assumes "loop_inv r st0 st" "side (heap st0 ! r) = Sell"
    and "0 < remaining_quantity (heap st ! r)" "getBestBid (orderBook st) \<noteq> None"
  shows "loop_inv r st0 (sellStep r st) \<and> open_count (heap (sellStep r st)) < open_count (heap st)"
proof -
  from assms(4) obtain a where best: "getBestBid (orderBook st) = Some a" by blast
  have bs: "sellStep r st = executeTrade a r (price (heap st ! a))
      (min (remaining_quantity (heap st ! r)) (remaining_quantity (heap st ! a))) st"
    using best by (simp add: sellStep_def)
  have i: "engine_inv st" "incoming_ok r st" "progress r st0 st"
    using assms(1) by (simp_all add: loop_inv_def)
  note s = sell_step [OF i(1,2) assms(3) best]
  show ?thesis
    unfolding loop_inv_def
    using s(1,2,3) sell_progress_step [OF i(1,2) assms(3) best i(3) assms(2)]
    by (simp add: bs)
qed

lemma marketBuyLoop_total:
  assumes "engine_inv st0" "incoming_ok r st0" "side (heap st0 ! r) = Buy"
  shows "\<exists>st'. marketBuyLoop r st0 = Some st' \<and> loop_inv r st0 st' \<and> \<not> marketBuyCont r st'"
proof (rule loop_rule [where m = "\<lambda>s. open_count (heap s)"])
  show "marketBuyLoop r s = (if marketBuyCont r s then marketBuyLoop r (buyStep r s) else Some s)"
    for s by (rule marketBuyLoop_unfold)
  show "loop_inv r st0 st0" using assms by (simp add: loop_inv_def progress_refl)
  show "loop_inv r st0 (buyStep r s) \<and> open_count (heap (buyStep r s)) < open_count (heap s)"
    if "loop_inv r st0 s" "marketBuyCont r s" for s
    using buy_loop_step [OF that(1) assms(3)] that(2) by (simp add: marketBuyCont_def)
qed

lemma limitBuyLoop_total:
  assumes "engine_inv st0" "incoming_ok r st0" "side (heap st0 ! r) = Buy"
  shows "\<exists>st'. limitBuyLoop r st0 = Some st' \<and> loop_inv r st0 st' \<and> \<not> limitBuyCont r st'"
proof (rule loop_rule [where m = "\<lambda>s. open_count (heap s)"])
  show "limitBuyLoop r s = (if limitBuyCont r s then limitBuyLoop r (buyStep r s) else Some s)"
    for s by (rule limitBuyLoop_unfold)
  show "loop_inv r st0 st0" using assms by (simp add: loop_inv_def progress_refl)
  show "loop_inv r st0 (buyStep r s) \<and> open_count (heap (buyStep r s)) < open_count (heap s)"
    if "loop_inv r st0 s" "limitBuyCont r s" for s
    using buy_loop_step [OF that(1) assms(3)] that(2)
    by (auto simp: limitBuyCont_def split: option.splits)
qed

lemma marketSellLoop_total:
  assumes "engine_inv st0" "incoming_ok r st0" "side (heap st0 ! r) = Sell"
  shows "\<exists>st'. marketSellLoop r st0 = Some st' \<and> loop_inv r st0 st' \<and> \<not> marketSellCont r st'"
proof (rule loop_rule [where m = "\<lambda>s. open_count (heap s)"])
  show "marketSellLoop r s = (if marketSellCont r s then marketSellLoop r (sellStep r s) else Some s)"
    for s by (rule marketSellLoop_unfold)
  show "loop_inv r st0 st0" using assms by (simp add: loop_inv_def progress_refl)
  show "loop_inv r st0 (sellStep r s) \<and> open_count (heap (sellStep r s)) < open_count (heap s)"
    if "loop_inv r st0 s" "marketSellCont r s" for s
    using sell_loop_step [OF that(1) assms(3)] that(2) by (simp add: marketSellCont_def)
qed

lemma limitSellLoop_total:
  assumes "engine_inv st0" "incoming_ok r st0" "side (heap st0 ! r) = Sell"
  shows "\<exists>st'. limitSellLoop r st0 = Some st' \<and> loop_inv r st0 st' \<and> \<not> limitSellCont r st'"
proof (rule loop_rule [where m = "\<lambda>s. open_count (heap s)"])
  show "limitSellLoop r s = (if limitSellCont r s then limitSellLoop r (sellStep r s) else Some s)"
    for s by (rule limitSellLoop_unfold)
  show "loop_inv r st0 st0" using assms by (simp add: loop_inv_def progress_refl)
  show "loop_inv r st0 (sellStep r s) \<and> open_count (heap (sellStep r s)) < open_count (heap s)"
    if "loop_inv r st0 s" "limitSellCont r s" for s
    using sell_loop_step [OF that(1) assms(3)] that(2)
    by (auto simp: limitSellCont_def split: option.splits)
qed

lemma level_wf_append:
  assumes "level_wf h sd idx p l"
  shows "level_wf (h @ [ord]) sd idx p l"
  using assms unfolding level_wf_def by (auto simp: nth_append)

lemma book_wf_append:
  assumes "book_wf h b"
  shows "book_wf (h @ [ord]) b"
proof -
  have "index_wf (h @ [ord]) b"
    unfolding index_wf_def
  proof (intro allI impI)
    fix oid r
    assume "orders b oid = Some r"
    from index_wf_D [OF _ this, of h] assms
    show "r < length (h @ [ord]) \<and> order_id ((h @ [ord]) ! r) = oid \<and>
      (\<exists>l. (if side ((h @ [ord]) ! r) = Buy then bids b else asks b)
             (price ((h @ [ord]) ! r)) = Some l \<and> r \<in> set l)"
      by (simp add: book_wf_def nth_append)
  qed
  moreover have "half_wf (h @ [ord]) sd idx key m ps" if "half_wf h sd idx key m ps"
    for sd idx key m ps
    using that unfolding half_wf_def by (blast intro: level_wf_append)
  ultimately show ?thesis using assms by (simp add: book_wf_def)
qed

lemma engine_inv_append:
  assumes inv: "engine_inv st" and f: "fresh_order ord"
    and id: "orders (orderBook st) (order_id ord) = None"
  shows "engine_inv (st\<lparr>heap := heap st @ [ord]\<rparr>)"
    and "incoming_ok (length (heap st)) (st\<lparr>heap := heap st @ [ord]\<rparr>)"
proof -
  have wf: "book_wf (heap st) (orderBook st)" using inv by (simp add: engine_inv_def)
  then have iw: "index_wf (heap st) (orderBook st)" by (simp add: book_wf_def)
  have "order_consistent ord" using f by (simp add: fresh_order_def order_consistent_def)
  moreover have "is_open ((heap st @ [ord]) ! x)" if "orders (orderBook st) oid = Some x" for oid x
    using inv index_wf_D(1) [OF iw that] that by (auto simp: engine_inv_def nth_append)
  ultimately show "engine_inv (st\<lparr>heap := heap st @ [ord]\<rparr>)"
    using inv book_wf_append [OF wf, of ord]
    by (auto simp: engine_inv_def nth_append less_Suc_eq)
  show "incoming_ok (length (heap st)) (st\<lparr>heap := heap st @ [ord]\<rparr>)"
    using f id by (simp add: incoming_ok_def fresh_order_def)
qed

lemma reject_static [simp]:
  "order_id (reject s ord) = order_id ord"
  "price (reject s ord) = price ord"
  "side (reject s ord) = side ord"
  "otype (reject s ord) = otype ord"
  "quantity (reject s ord) = quantity ord"
  "filled_quantity (reject s ord) = filled_quantity ord"
  "status (reject s ord) = Rejected"
  by (simp_all add: reject_def)

lemma not_resting_incoming:
  assumes "engine_inv st" "incoming_ok r st" "orders (orderBook st) oid = Some x"
  shows "x \<noteq> r"
proof -
  have "index_wf (heap st) (orderBook st)" using assms(1) by (simp add: engine_inv_def book_wf_def)
  from index_wf_D(2) [OF this assms(3)] assms(2,3) show ?thesis
    by (auto simp: incoming_ok_def)
qed

lemma engine_inv_reject:
  assumes inv: "engine_inv st" and inc: "incoming_ok r st"
    and rem: "0 < remaining_quantity (heap st ! r)"
  shows "engine_inv (st\<lparr>heap := (heap st)[r := reject s (heap st ! r)], callbacks := cb\<rparr>)"
proof -
  let ?h = "(heap st)[r := reject s (heap st ! r)]"
  have r: "r < length (heap st)" using inc by (simp add: incoming_ok_def)
  have se: "static_eq (heap st) ?h" by (rule static_eq_update) simp_all
  have ro: "is_open (heap st ! r)" by (rule incoming_open [OF inv inc rem])
  have "book_wf ?h (orderBook st)"
    unfolding book_wf_static [OF se] using inv by (simp add: engine_inv_def)
  moreover have "is_open (?h ! x)" if "orders (orderBook st) oid = Some x" for oid x
    using not_resting_incoming [OF inv inc that] inv that by (simp add: engine_inv_def)
  moreover have "order_consistent (?h ! x)" if "x < length (heap st)" for x
  proof (cases "x = r")
    case True
    have "order_consistent (heap st ! r)" using inv r by (simp add: engine_inv_def)
    then show ?thesis using True r ro rem by (simp add: reject_consistent)
  next
    case False
    then show ?thesis using inv that by (simp add: engine_inv_def)
  qed
  ultimately show ?thesis using inv by (auto simp: engine_inv_def)
qed

lemma uncrossed_addOrder:
  assumes "uncrossed b"
    and "side (h ! r) = Buy \<longrightarrow> (\<forall>ap\<in>set (askPrices b). num (price (h ! r)) < num ap)"
    and "side (h ! r) \<noteq> Buy \<longrightarrow> (\<forall>bp\<in>set (bidPrices b). num bp < num (price (h ! r)))"
  shows "uncrossed (addOrder h r b)"
  using assms unfolding uncrossed_def
  by (auto simp: addOrder_def addBid_def addAsk_def Let_def split: option.splits)

lemma limitBuy_exit:
  assumes inv: "engine_inv st" and nc: "\<not> limitBuyCont r st"
    and rem: "0 < remaining_quantity (heap st ! r)"
  shows "\<forall>ap\<in>set (askPrices (orderBook st)). num (price (heap st ! r)) < num ap"
proof (cases "askPrices (orderBook st)")
  case Nil
  then show ?thesis by simp
next
  case (Cons p ps)
  have wf: "book_wf (heap st) (orderBook st)" using inv by (simp add: engine_inv_def)
  then have hs: "half_wf (heap st) Sell (orders (orderBook st)) num (asks (orderBook st))
      (askPrices (orderBook st))" by (simp add: book_wf_def)
  from getBestAsk_nonempty [OF wf] Cons obtain a where best: "getBestAsk (orderBook st) = Some a"
    by auto
  from getBestAsk_wf(1) [OF wf best] Cons have p: "price (heap st ! a) = p" by auto
  from nc rem Cons best p have lt: "num (price (heap st ! r)) < num p"
    by (simp add: limitBuyCont_def)
  have "\<forall>ap\<in>set (askPrices (orderBook st)). num p \<le> num ap"
    using hs Cons by (auto simp: half_wf_def)
  with lt show ?thesis by fastforce
qed

lemma limitSell_exit:
  assumes inv: "engine_inv st" and nc: "\<not> limitSellCont r st"
    and rem: "0 < remaining_quantity (heap st ! r)"
  shows "\<forall>bp\<in>set (bidPrices (orderBook st)). num bp < num (price (heap st ! r))"
proof (cases "bidPrices (orderBook st)")
  case Nil
  then show ?thesis by simp
next
  case (Cons p ps)
  have wf: "book_wf (heap st) (orderBook st)" using inv by (simp add: engine_inv_def)
  then have hs: "half_wf (heap st) Buy (orders (orderBook st)) (\<lambda>a. - num a)
      (bids (orderBook st)) (bidPrices (orderBook st))" by (simp add: book_wf_def)
  from getBestBid_nonempty [OF wf] Cons obtain a where best: "getBestBid (orderBook st) = Some a"
    by auto
  from getBestBid_wf(1) [OF wf best] Cons have p: "price (heap st ! a) = p" by auto
  from nc rem Cons best p have lt: "num p < num (price (heap st ! r))"
    by (simp add: limitSellCont_def)
  have "\<forall>bp\<in>set (bidPrices (orderBook st)). num bp \<le> num p"
    using hs Cons by (auto simp: half_wf_def)
  with lt show ?thesis by fastforce
qed

lemma marketBuy_exit:
  assumes inv: "engine_inv st" and nc: "\<not> marketBuyCont r st"
    and rem: "0 < remaining_quantity (heap st ! r)"
  shows "askPrices (orderBook st) = []"
proof (rule ccontr)
  assume "askPrices (orderBook st) \<noteq> []"
  moreover from this have "getBestAsk (orderBook st) \<noteq> None"
    using inv by (intro getBestAsk_nonempty [of "heap st"]) (simp_all add: engine_inv_def)
  ultimately show False using nc rem by (simp add: marketBuyCont_def)
qed

lemma marketSell_exit:
  assumes inv: "engine_inv st" and nc: "\<not> marketSellCont r st"
    and rem: "0 < remaining_quantity (heap st ! r)"
  shows "bidPrices (orderBook st) = []"
proof (rule ccontr)
  assume "bidPrices (orderBook st) \<noteq> []"
  moreover from this have "getBestBid (orderBook st) \<noteq> None"
    using inv by (intro getBestBid_nonempty [of "heap st"]) (simp_all add: engine_inv_def)
  ultimately show False using nc rem by (simp add: marketSellCont_def)
qed

lemma incoming_not_open:
  assumes "engine_inv st" "incoming_ok r st" "\<not> 0 < remaining_quantity (heap st ! r)"
  shows "status (heap st ! r) = Filled"
proof -
  have "order_consistent (heap st ! r)"
    using assms(1,2) by (simp add: engine_inv_def incoming_ok_def)
  with assms(2,3) show ?thesis
    by (auto simp: incoming_ok_def order_consistent_def remaining_quantity_def)
qed

lemma matchMarketOrder_total:
  assumes inv: "engine_inv st" and inc: "incoming_ok r st"
  shows "\<exists>st2 st3. matchMarketOrder r st = Some st3 \<and> loop_inv r st st2
     \<and> (if side (heap st ! r) = Buy then marketBuyLoop r st else marketSellLoop r st) = Some st2
     \<and> engine_inv st3
     \<and> orderBook st3 = orderBook st2 \<and> trades st3 = trades st2
     \<and> engine_instrument st3 = engine_instrument st2
     \<and> heap st3 = (if 0 < remaining_quantity (heap st2 ! r)
                    then (heap st2)[r := reject ''Insufficient liquidity'' (heap st2 ! r)]
                    else heap st2)
     \<and> (0 < remaining_quantity (heap st2 ! r) \<longrightarrow> exhausted r st2)
     \<and> \<not> is_open (heap st3 ! r)"
proof -
  have "\<exists>st2. (if side (heap st ! r) = Buy then marketBuyLoop r st else marketSellLoop r st)
      = Some st2 \<and> loop_inv r st st2
      \<and> (0 < remaining_quantity (heap st2 ! r) \<longrightarrow> exhausted r st2)"
  proof (cases "side (heap st ! r)")
    case Buy
    from marketBuyLoop_total [OF inv inc Buy] obtain st2 where
      l: "marketBuyLoop r st = Some st2" "loop_inv r st st2" "\<not> marketBuyCont r st2" by blast
    have "side (heap st2 ! r) = Buy"
      using l(2) Buy by (simp add: loop_inv_def progress_def static_eq_def)
    with l Buy marketBuy_exit [of st2 r] show ?thesis
      by (auto simp: loop_inv_def exhausted_def)
  next
    case Sell
    from marketSellLoop_total [OF inv inc Sell] obtain st2 where
      l: "marketSellLoop r st = Some st2" "loop_inv r st st2" "\<not> marketSellCont r st2" by blast
    have "side (heap st2 ! r) = Sell"
      using l(2) Sell by (simp add: loop_inv_def progress_def static_eq_def)
    with l Sell marketSell_exit [of st2 r] show ?thesis
      by (auto simp: loop_inv_def exhausted_def)
  qed
  then obtain st2 where l: "(if side (heap st ! r) = Buy then marketBuyLoop r st
      else marketSellLoop r st) = Some st2" "loop_inv r st st2"
      "0 < remaining_quantity (heap st2 ! r) \<longrightarrow> exhausted r st2" by blast
  have i2: "engine_inv st2" "incoming_ok r st2" using l(2) by (simp_all add: loop_inv_def)
  have r: "r < length (heap st2)" using i2(2) by (simp add: incoming_ok_def)
  let ?st3 = "if 0 < remaining_quantity (heap st2 ! r)
       then (let h = (heap st2)[r := reject ''Insufficient liquidity'' (heap st2 ! r)]
             in st2\<lparr>heap := h, callbacks := callbacks st2 @ [OnOrderUpdate (h ! r)]\<rparr>)
       else st2"
  have m: "matchMarketOrder r st = Some ?st3"
    unfolding matchMarketOrder_def using l(1) by simp
  show ?thesis
  proof (cases "0 < remaining_quantity (heap st2 ! r)")
    case True
    have "engine_inv ?st3" using True engine_inv_reject [OF i2 True] by (simp add: Let_def)
    moreover have "\<not> is_open (heap ?st3 ! r)" using True r by (simp add: is_open_def)
    ultimately show ?thesis using m l True
      by (intro exI [of _ st2] exI [of _ ?st3]) (simp add: Let_def)
  next
    case False
    have "status (heap st2 ! r) = Filled" using incoming_not_open [OF i2 False] .
    then have "\<not> is_open (heap ?st3 ! r)" using False by (simp add: is_open_def)
    then show ?thesis using m l False i2
      by (intro exI [of _ st2] exI [of _ ?st3]) simp
  qed
qed

lemma orders_addOrder [simp]: "orders (addOrder h r b) = (orders b)(order_id (h ! r) \<mapsto> r)"
  by (simp add: addOrder_def addBid_def addAsk_def Let_def split: option.splits)

lemma matchLimitOrder_total:
  assumes inv: "engine_inv st" and inc: "incoming_ok r st"
  shows "\<exists>st2. matchLimitOrder r st = Some st2 \<and> loop_inv r st st2
     \<and> (0 < remaining_quantity (heap st2 ! r) \<longrightarrow> uncrossing r st2)"
proof (cases "side (heap st ! r)")
  case Buy
  from limitBuyLoop_total [OF inv inc Buy] obtain st2 where
    l: "limitBuyLoop r st = Some st2" "loop_inv r st st2" "\<not> limitBuyCont r st2" by blast
  have "side (heap st2 ! r) = Buy"
    using l(2) Buy by (simp add: loop_inv_def progress_def static_eq_def)
  with l Buy limitBuy_exit [of st2 r] show ?thesis
    by (auto simp: loop_inv_def uncrossing_def matchLimitOrder_def)
next
  case Sell
  from limitSellLoop_total [OF inv inc Sell] obtain st2 where
    l: "limitSellLoop r st = Some st2" "loop_inv r st st2" "\<not> limitSellCont r st2" by blast
  have "side (heap st2 ! r) = Sell"
    using l(2) Sell by (simp add: loop_inv_def progress_def static_eq_def)
  with l Sell limitSell_exit [of st2 r] show ?thesis
    by (auto simp: loop_inv_def uncrossing_def matchLimitOrder_def)
qed

lemma engine_inv_addOrder:
  assumes inv: "engine_inv st" and inc: "incoming_ok r st" and last: "Suc r = length (heap st)"
    and rem: "0 < remaining_quantity (heap st ! r)" and unc: "uncrossing r st"
  shows "engine_inv (st\<lparr>orderBook := addOrder (heap st) r (orderBook st), callbacks := cb\<rparr>)"
proof -
  have fresh: "orders (orderBook st) (order_id (heap st ! r)) = None"
    using inc by (simp add: incoming_ok_def)
  have wf: "book_wf (heap st) (orderBook st)" using inv by (simp add: engine_inv_def)
  have "book_wf (heap st) (addOrder (heap st) r (orderBook st))"
    using wf last fresh by (rule addOrder_wf)
  moreover have "is_open (heap st ! r)" by (rule incoming_open [OF inv inc rem])
  moreover have "uncrossed (addOrder (heap st) r (orderBook st))"
    using inv unc by (intro uncrossed_addOrder) (auto simp: engine_inv_def uncrossing_def)
  ultimately show ?thesis using inv by (auto simp: engine_inv_def)
qed

lemma matchOrder_total:
  assumes inv: "engine_inv st" and inc: "incoming_ok r st" and last: "Suc r = length (heap st)"
  shows "\<exists>st2 st'. matchOrder r st = Some st' \<and> loop_inv r st st2 \<and> engine_inv st'
     \<and> match_loop r st = Some st2
     \<and> trades st' = trades st2 \<and> engine_instrument st' = engine_instrument st2
     \<and> (otype (heap st ! r) = Market \<longrightarrow>
           orderBook st' = orderBook st2
           \<and> heap st' = (if 0 < remaining_quantity (heap st2 ! r)
                          then (heap st2)[r := reject ''Insufficient liquidity'' (heap st2 ! r)]
                          else heap st2)
           \<and> (0 < remaining_quantity (heap st2 ! r) \<longrightarrow> exhausted r st2))
     \<and> (otype (heap st ! r) = Limit \<longrightarrow>
           heap st' = heap st2
           \<and> orderBook st' = (if 0 < remaining_quantity (heap st2 ! r)
                               then addOrder (heap st2) r (orderBook st2)
                               else orderBook st2)
           \<and> (0 < remaining_quantity (heap st2 ! r) \<longrightarrow> uncrossing r st2))"
proof (cases "otype (heap st ! r)")
  case Market
  from matchMarketOrder_total [OF inv inc] obtain st2 st3 where
    m: "matchMarketOrder r st = Some st3" "loop_inv r st st2" "engine_inv st3"
      "(if side (heap st ! r) = Buy then marketBuyLoop r st else marketSellLoop r st) = Some st2"
      "orderBook st3 = orderBook st2" "trades st3 = trades st2"
      "engine_instrument st3 = engine_instrument st2"
      "heap st3 = (if 0 < remaining_quantity (heap st2 ! r)
                    then (heap st2)[r := reject ''Insufficient liquidity'' (heap st2 ! r)]
                    else heap st2)"
      "0 < remaining_quantity (heap st2 ! r) \<longrightarrow> exhausted r st2"
      "\<not> is_open (heap st3 ! r)" by blast
  have "matchOrder r st = Some st3"
    unfolding matchOrder_def using Market m(1,10) by simp
  with m Market show ?thesis
    by (intro exI [of _ st2] exI [of _ st3]) (simp add: match_loop_def)
next
  case Limit
  from matchLimitOrder_total [OF inv inc] obtain st2 where
    m: "matchLimitOrder r st = Some st2" "loop_inv r st st2"
      "0 < remaining_quantity (heap st2 ! r) \<longrightarrow> uncrossing r st2" by blast
  have i2: "engine_inv st2" "incoming_ok r st2" using m(2) by (simp_all add: loop_inv_def)
  have last2: "Suc r = length (heap st2)"
    using m(2) last by (simp add: loop_inv_def progress_def static_eq_def)
  let ?st' = "if is_open (heap st2 ! r)
       then st2\<lparr>orderBook := addOrder (heap st2) r (orderBook st2),
                callbacks := callbacks st2 @ [OnOrderUpdate (heap st2 ! r)]\<rparr>
       else st2"
  have mo: "matchOrder r st = Some ?st'"
    unfolding matchOrder_def using Limit m(1) by simp
  have op: "is_open (heap st2 ! r) \<longleftrightarrow> 0 < remaining_quantity (heap st2 ! r)"
  proof
    assume "is_open (heap st2 ! r)"
    then have "status (heap st2 ! r) \<noteq> Filled" by (auto simp: is_open_def)
    with incoming_not_open [OF i2] show "0 < remaining_quantity (heap st2 ! r)" by blast
  next
    assume "0 < remaining_quantity (heap st2 ! r)"
    then show "is_open (heap st2 ! r)" by (rule incoming_open [OF i2])
  qed
  have "engine_inv ?st'"
    using engine_inv_addOrder [OF i2 last2] i2(1) m(3) op by simp
  with mo m Limit op show ?thesis
    by (intro exI [of _ st2] exI [of _ ?st']) (simp add: match_loop_def matchLimitOrder_def)
qed

lemma cancel_static:
  assumes "cancel ord = Inr ord'"
  shows "order_id ord' = order_id ord" "price ord' = price ord" "side ord' = side ord"
    "otype ord' = otype ord" "quantity ord' = quantity ord"
    "filled_quantity ord' = filled_quantity ord" "status ord' = Cancelled" "is_open ord"
  using assms by (auto simp: cancel_def split: if_splits)

lemma static_eq_ids: "static_eq h h' \<Longrightarrow> map order_id h' = map order_id h"
  by (auto simp: static_eq_def intro: nth_equalityI)

lemma processOrder_total:
  assumes inv: "engine_inv st" and f: "fresh_order ord"
    and id: "orders (orderBook st) (order_id ord) = None"
  defines "r \<equiv> length (heap st)"
  defines "st1 \<equiv> st\<lparr>heap := heap st @ [ord]\<rparr>"
  shows "\<exists>st2 st'. processOrder ord st = Some st' \<and> loop_inv r st1 st2 \<and> engine_inv st'
     \<and> match_loop r st1 = Some st2
     \<and> trades st' = trades st2 \<and> engine_instrument st' = engine_instrument st2
     \<and> (otype ord = Market \<longrightarrow>
           orderBook st' = orderBook st2
           \<and> heap st' = (if 0 < remaining_quantity (heap st2 ! r)
                          then (heap st2)[r := reject ''Insufficient liquidity'' (heap st2 ! r)]
                          else heap st2)
           \<and> (0 < remaining_quantity (heap st2 ! r) \<longrightarrow> exhausted r st2))
     \<and> (otype ord = Limit \<longrightarrow>
           heap st' = heap st2
           \<and> orderBook st' = (if 0 < remaining_quantity (heap st2 ! r)
                               then addOrder (heap st2) r (orderBook st2)
                               else orderBook st2)
           \<and> (0 < remaining_quantity (heap st2 ! r) \<longrightarrow> uncrossing r st2))"
proof -
  note a = engine_inv_append [OF inv f id]
  have "Suc r = length (heap st1)" "otype (heap st1 ! r) = otype ord"
    by (simp_all add: r_def st1_def)
  with matchOrder_total [OF a [folded r_def st1_def]] show ?thesis
    by (simp add: processOrder_def r_def st1_def)
qed

lemma cancelOrder_inv:
  assumes inv: "engine_inv st" and c: "cancelOrder oid st = Inr (st', r)"
  shows "engine_inv st'" and "static_eq (heap st) (heap st')" and "trades st' = trades st"
    and "orders (orderBook st) oid = Some r" and "status (heap st' ! r) = Cancelled"
    and "orders (orderBook st') = (orders (orderBook st))(oid := None)"
    and "\<forall>x. x \<noteq> r \<longrightarrow> heap st' ! x = heap st ! x"
    and "is_open (heap st ! r)"
proof -
  have wf: "book_wf (heap st) (orderBook st)" using inv by (simp add: engine_inv_def)
  then have iw: "index_wf (heap st) (orderBook st)" by (simp add: book_wf_def)
  from c obtain ord' where o: "orders (orderBook st) oid = Some r"
    and cn: "cancel (heap st ! r) = Inr ord'"
    and st': "st' = st\<lparr>heap := (heap st)[r := ord'],
         orderBook := removeOrder ((heap st)[r := ord']) oid (orderBook st)\<rparr>"
    by (auto simp: cancelOrder_def Let_def split: option.splits sum.splits)
  note cs = cancel_static [OF cn]
  note d = index_wf_D [OF iw o]
  show "orders (orderBook st) oid = Some r" by (rule o)
  show "is_open (heap st ! r)" by (rule cs(8))
  show se: "static_eq (heap st) (heap st')"
    unfolding st' using cs by (simp add: static_eq_update)
  show "trades st' = trades st" by (simp add: st')
  show "status (heap st' ! r) = Cancelled" using d(1) cs(7) by (simp add: st')
  show "orders (orderBook st') = (orders (orderBook st))(oid := None)" by (simp add: st')
  show "\<forall>x. x \<noteq> r \<longrightarrow> heap st' ! x = heap st ! x" by (simp add: st')
  have b': "orderBook st' = removeOrder (heap st) oid (orderBook st)"
    using removeOrder_static [OF se [unfolded st']] by (simp add: st')
  have "book_wf (heap st') (orderBook st')"
    unfolding book_wf_static [OF se] b' using wf o by (rule removeOrder_wf)
  moreover have "is_open (heap st' ! x)" if "orders (orderBook st') oid' = Some x" for oid' x
  proof -
    from that have ne: "oid' \<noteq> oid" and o': "orders (orderBook st) oid' = Some x"
      by (auto simp: b' split: if_splits)
    have "x \<noteq> r" using index_wf_D(2) [OF iw o'] d(2) ne by auto
    then show ?thesis using inv o' by (simp add: st' engine_inv_def)
  qed
  moreover have "order_consistent (heap st' ! x)" if "x < length (heap st')" for x
  proof (cases "x = r")
    case True
    have "order_consistent (heap st ! r)" using inv d(1) by (simp add: engine_inv_def)
    then have "order_consistent ord'" using cn by (rule cancel_consistent)
    then show ?thesis using True d(1) by (simp add: st')
  next
    case False
    then show ?thesis using inv that by (simp add: st' engine_inv_def)
  qed
  moreover have "uncrossed (orderBook st')"
    unfolding b' using inv by (intro uncrossed_removeOrder) (simp add: engine_inv_def)
  ultimately show "engine_inv st'" by (auto simp: engine_inv_def)
qed

lemma engine_inv_new: "engine_inv (newEngine i)"
  by (simp add: engine_inv_def newEngine_def newOrderBook_def book_wf_def half_wf_def
      index_wf_def uncrossed_def)

lemma fresh_id_absent:
  assumes inv: "engine_inv st" and "oid \<notin> set (map order_id (heap st))"
  shows "orders (orderBook st) oid = None"
proof (rule ccontr)
  assume "orders (orderBook st) oid \<noteq> None"
  then obtain x where o: "orders (orderBook st) oid = Some x" by blast
  have "index_wf (heap st) (orderBook st)" using inv by (simp add: engine_inv_def book_wf_def)
  from index_wf_D(1,2) [OF this o] assms(2) show False by auto
qed

lemma step_total:
  assumes inv: "engine_inv st"
    and ok: "list_all fresh_order (submitted [c])"
      "distinct (map order_id (heap st) @ map order_id (submitted [c]))"
  shows "\<exists>st'. step st c = Some st' \<and> engine_inv st'
     \<and> map order_id (heap st') = map order_id (heap st) @ map order_id (submitted [c])"
proof (cases c)
  case (Submit ord)
  have f: "fresh_order ord" and nin: "order_id ord \<notin> set (map order_id (heap st))"
    using ok Submit by auto
  note id = fresh_id_absent [OF inv nin]
  from processOrder_total [OF inv f id] obtain st2 st' where
    p: "processOrder ord st = Some st'" "loop_inv (length (heap st)) (st\<lparr>heap := heap st @ [ord]\<rparr>) st2"
      "engine_inv st'" "otype ord = Market \<longrightarrow> heap st' = (if 0 < remaining_quantity (heap st2 ! length (heap st))
                          then (heap st2)[length (heap st) := reject ''Insufficient liquidity'' (heap st2 ! length (heap st))]
                          else heap st2)"
      "otype ord = Limit \<longrightarrow> heap st' = heap st2" by blast
  have se: "static_eq (heap st @ [ord]) (heap st2)"
    using p(2) by (simp add: loop_inv_def progress_def)
  have "static_eq (heap st2) (heap st')"
    using p(4,5) by (cases "otype ord") (auto intro: static_eq_update)
  with se have "static_eq (heap st @ [ord]) (heap st')" by (rule static_eq_trans)
  from static_eq_ids [OF this] p(1,3) Submit show ?thesis by simp
next
  case (Cancel oid)
  show ?thesis
  proof (cases "cancelOrder oid st")
    case (Inl e)
    with Cancel inv show ?thesis by simp
  next
    case (Inr x)
    obtain st' r where x: "x = (st', r)" by (cases x)
    note ci = cancelOrder_inv [OF inv Inr [unfolded x]]
    from static_eq_ids [OF ci(2)] ci(1) Cancel Inr x show ?thesis by simp
  qed
qed

lemma submitted_append [simp]: "submitted (xs @ ys) = submitted xs @ submitted ys"
  by (induction xs rule: submitted.induct) auto

lemma run_total:
  assumes "engine_inv st0" "list_all fresh_order (submitted cs)"
    "distinct (map order_id (heap st0) @ map order_id (submitted cs))"
  shows "\<exists>st. run st0 cs = Some st \<and> engine_inv st
     \<and> map order_id (heap st) = map order_id (heap st0) @ map order_id (submitted cs)"
  using assms
proof (induction cs arbitrary: st0)
  case Nil
  then show ?case by simp
next
  case (Cons c cs)
  have s: "submitted (c # cs) = submitted [c] @ submitted cs"
    using submitted_append [of "[c]" cs] by simp
  have "list_all fresh_order (submitted [c])"
    "distinct (map order_id (heap st0) @ map order_id (submitted [c]))"
    using Cons.prems(2,3) unfolding s by auto
  from step_total [OF Cons.prems(1) this] obtain st1 where
    st1: "step st0 c = Some st1" "engine_inv st1"
      "map order_id (heap st1) = map order_id (heap st0) @ map order_id (submitted [c])" by blast
  have "list_all fresh_order (submitted cs)"
    "distinct (map order_id (heap st1) @ map order_id (submitted cs))"
    using Cons.prems(2,3) unfolding s st1(3) by auto
  from Cons.IH [OF st1(2) this] obtain st where
    "run st1 cs = Some st" "engine_inv st"
    "map order_id (heap st) = map order_id (heap st1) @ map order_id (submitted cs)" by blast
  with st1 show ?case unfolding s by simp
qed

lemma run_append: "run st (xs @ ys) = run st xs \<bind> (\<lambda>st1. run st1 ys)"
  by (induction xs arbitrary: st) (auto split: bind_splits)

lemma run_valid:
  assumes "valid_commands cs"
  shows "\<exists>st. run (newEngine i) cs = Some st \<and> engine_inv st
     \<and> map order_id (heap st) = map order_id (submitted cs)"
  using run_total [OF engine_inv_new, of cs i] assms
  by (simp add: valid_commands_def newEngine_def)


section \<open>Matching: maker price, priority, uncrossed book, market remainder\<close>

lemma engine_inv_no_cross:
  assumes "engine_inv st"
  shows "no_cross st"
proof (cases "getBestBid (orderBook st)")
  case None
  then show ?thesis by (simp add: no_cross_def)
next
  case (Some b)
  show ?thesis
  proof (cases "getBestAsk (orderBook st)")
    case None
    then show ?thesis by (simp add: no_cross_def split: option.splits)
  next
    case (Some a)
    have wf: "book_wf (heap st) (orderBook st)" and un: "uncrossed (orderBook st)"
      using assms by (simp_all add: engine_inv_def)
    from getBestBid_wf(1) [OF wf \<open>getBestBid (orderBook st) = Some b\<close>]
      getBestAsk_wf(1) [OF wf Some] un
    have "num (price (heap st ! b)) < num (price (heap st ! a))"
      by (auto simp: uncrossed_def)
    with Some \<open>getBestBid (orderBook st) = Some b\<close> show ?thesis by (simp add: no_cross_def)
  qed
qed

lemma resting_uncrossing:
  assumes inv: "engine_inv st" and r: "resting st x"
  shows "uncrossing x st"
proof -
  have wf: "book_wf (heap st) (orderBook st)" and un: "uncrossed (orderBook st)"
    using inv by (simp_all add: engine_inv_def)
  have iw: "index_wf (heap st) (orderBook st)"
    and hb: "half_wf (heap st) Buy (orders (orderBook st)) (\<lambda>a. - num a) (bids (orderBook st))
       (bidPrices (orderBook st))"
    and hs: "half_wf (heap st) Sell (orders (orderBook st)) num (asks (orderBook st))
       (askPrices (orderBook st))"
    using wf by (simp_all add: book_wf_def)
  from r have o: "orders (orderBook st) (order_id (heap st ! x)) = Some x"
    by (simp add: resting_def)
  from index_wf_D(3) [OF iw o] obtain l where
    l: "(if side (heap st ! x) = Buy then bids (orderBook st) else asks (orderBook st))
          (price (heap st ! x)) = Some l" by blast
  show ?thesis
  proof (cases "side (heap st ! x)")
    case Buy
    with l have "price (heap st ! x) \<in> set (bidPrices (orderBook st))"
      using half_wf_level(2) [OF hb] by simp
    with un Buy show ?thesis by (auto simp: uncrossing_def uncrossed_def)
  next
    case Sell
    with l have "price (heap st ! x) \<in> set (askPrices (orderBook st))"
      using half_wf_level(2) [OF hs] by simp
    with un Sell show ?thesis by (auto simp: uncrossing_def uncrossed_def)
  qed
qed

lemma valid_commands_snoc:
  "valid_commands (cs @ [Submit ord]) \<longleftrightarrow>
     valid_commands cs \<and> fresh_order ord \<and> order_id ord \<notin> set (map order_id (submitted cs))"
  by (auto simp: valid_commands_def)

lemma submit_after_valid:
  assumes v: "valid_commands (cs @ [Submit ord])"
  shows "\<exists>st. run (newEngine i) cs = Some st \<and> engine_inv st \<and> fresh_order ord
     \<and> orders (orderBook st) (order_id ord) = None"
proof -
  from v have vc: "valid_commands cs" and f: "fresh_order ord"
    and nin: "order_id ord \<notin> set (map order_id (submitted cs))"
    by (simp_all add: valid_commands_snoc)
  from run_valid [OF vc, of i] obtain st where
    st: "run (newEngine i) cs = Some st" "engine_inv st"
      "map order_id (heap st) = map order_id (submitted cs)" by blast
  from fresh_id_absent [OF st(2), of "order_id ord"] nin st(3)
  have "orders (orderBook st) (order_id ord) = None" by simp
  with st f show ?thesis by blast
qed

text \<open>
  C3. Every sequence of submit and cancel commands whose submitted orders are new (open,
  nothing filled, positive quantity) and carry distinct order ids, run on one engine from
  the empty book, returns, and in the state it reaches the best bid price is strictly
  below the best ask price whenever both exist. Moreover a limit order submitted next
  returns with the book uncrossed, and if its remainder rests in the book then every
  price level of the opposite side lies strictly beyond its limit price: the remainder
  was inserted only once the opposite best no longer crossed it.
\<close>

theorem no_crossed_book_at_rest:
  assumes "valid_commands cs"
  shows "\<exists>st. run (newEngine i) cs = Some st \<and> no_cross st
     \<and> (\<forall>ord. otype ord = Limit \<and> valid_commands (cs @ [Submit ord]) \<longrightarrow>
           (\<exists>st'. processOrder ord st = Some st' \<and> no_cross st'
              \<and> (resting st' (length (heap st)) \<longrightarrow> uncrossing (length (heap st)) st')))"
proof -
  from run_valid [OF assms, of i] obtain st where
    st: "run (newEngine i) cs = Some st" "engine_inv st" by blast
  have "\<exists>st'. processOrder ord st = Some st' \<and> no_cross st'
      \<and> (resting st' (length (heap st)) \<longrightarrow> uncrossing (length (heap st)) st')"
    if v: "valid_commands (cs @ [Submit ord])" for ord
  proof -
    from submit_after_valid [OF v, of i] st(1)
    have f: "fresh_order ord" and id: "orders (orderBook st) (order_id ord) = None" by auto
    from processOrder_total [OF st(2) f id] obtain st' where
      "processOrder ord st = Some st'" "engine_inv st'" by blast
    then show ?thesis using engine_inv_no_cross resting_uncrossing by blast
  qed
  with st engine_inv_no_cross show ?thesis by blast
qed

theorem no_crossed_book_at_rest_witness:
  "valid_commands scenario_partial
   \<and> (\<exists>st. run (newEngine ''BTC-USD'') scenario_partial = Some st \<and> no_cross st
        \<and> getBestBid (orderBook st) = Some 1 \<and> getBestAsk (orderBook st) = Some 2
        \<and> price (heap st ! 1) = Some 70000 \<and> price (heap st ! 2) = Some 70100)"
proof -
  have v: "valid_commands scenario_partial"
    by (simp add: valid_commands_def scenario_partial_def limit_order_def fresh_order_def)
  have e: "map_option (\<lambda>st. (getBestBid (orderBook st), getBestAsk (orderBook st),
        price (heap st ! 1), price (heap st ! 2))) (run (newEngine ''BTC-USD'') scenario_partial)
      = Some (Some 1, Some 2, Some 70000, Some 70100)"
    by code_simp
  from no_crossed_book_at_rest [OF v, of "''BTC-USD''"] obtain st where
    "run (newEngine ''BTC-USD'') scenario_partial = Some st" "no_cross st" by blast
  with v e show ?thesis by auto
qed

lemma maker_priced_of_progress:
  assumes inv: "engine_inv st"
    and t: "if side ord = Buy
            then trade_of_buy (length (heap st)) (st\<lparr>heap := heap st @ [ord]\<rparr>) t
            else trade_of_sell (length (heap st)) (st\<lparr>heap := heap st @ [ord]\<rparr>) t"
  shows "maker_priced st ord t"
proof -
  have iw: "index_wf (heap st) (orderBook st)" using inv by (simp add: engine_inv_def book_wf_def)
  let ?h1 = "heap st @ [ord]"
  have old: "a < length (heap st)" if "orders (orderBook st) (order_id (?h1 ! a)) = Some a" for a
    using index_wf_D(1) [OF iw that] .
  show ?thesis
  proof (cases "side ord")
    case Buy
    with t obtain a where a: "orders (orderBook st) (order_id (?h1 ! a)) = Some a"
      "side (?h1 ! a) = Sell" "sell_order_id t = order_id (?h1 ! a)"
      "trade_price t = price (?h1 ! a)" "buy_order_id t = order_id ord"
      by (auto simp: trade_of_buy_def)
    with old [OF a(1)] Buy show ?thesis
      unfolding maker_priced_def resting_def
      by (intro exI [of _ a]) (simp add: nth_append)
  next
    case Sell
    with t obtain a where a: "orders (orderBook st) (order_id (?h1 ! a)) = Some a"
      "side (?h1 ! a) = Buy" "buy_order_id t = order_id (?h1 ! a)"
      "trade_price t = price (?h1 ! a)" "sell_order_id t = order_id ord"
      by (auto simp: trade_of_sell_def)
    with old [OF a(1)] Sell show ?thesis
      unfolding maker_priced_def resting_def
      by (intro exI [of _ a]) (simp add: nth_append)
  qed
qed

lemma submit_trades:
  assumes inv: "engine_inv st" and f: "fresh_order ord"
    and id: "orders (orderBook st) (order_id ord) = None"
  shows "\<exists>st2 st' ts. processOrder ord st = Some st'
     \<and> match_loop (length (heap st)) (st\<lparr>heap := heap st @ [ord]\<rparr>) = Some st2
     \<and> engine_inv st' \<and> engine_inv st2 \<and> incoming_ok (length (heap st)) st2
     \<and> static_eq (heap st @ [ord]) (heap st2)
     \<and> trades st' = trades st @ ts \<and> trades st2 = trades st @ ts
     \<and> filled_quantity (heap st2 ! length (heap st)) = sum_list (map trade_quantity ts)
     \<and> (\<forall>t\<in>set ts. maker_priced st ord t \<and> 0 < trade_quantity t)
     \<and> (otype ord = Market \<longrightarrow>
           orderBook st' = orderBook st2
           \<and> heap st' = (if 0 < remaining_quantity (heap st2 ! length (heap st))
                          then (heap st2)[length (heap st) :=
                                 reject ''Insufficient liquidity'' (heap st2 ! length (heap st))]
                          else heap st2)
           \<and> (0 < remaining_quantity (heap st2 ! length (heap st))
                \<longrightarrow> exhausted (length (heap st)) st2))
     \<and> (otype ord = Limit \<longrightarrow> heap st' = heap st2)"
proof -
  let ?r = "length (heap st)" and ?st1 = "st\<lparr>heap := heap st @ [ord]\<rparr>"
  from processOrder_total [OF inv f id] obtain st2 st' where
    p: "processOrder ord st = Some st'" "loop_inv ?r ?st1 st2" "engine_inv st'"
      "match_loop ?r ?st1 = Some st2" "trades st' = trades st2"
      "otype ord = Market \<longrightarrow>
           orderBook st' = orderBook st2
           \<and> heap st' = (if 0 < remaining_quantity (heap st2 ! ?r)
                          then (heap st2)[?r := reject ''Insufficient liquidity'' (heap st2 ! ?r)]
                          else heap st2)
           \<and> (0 < remaining_quantity (heap st2 ! ?r) \<longrightarrow> exhausted ?r st2)"
      "otype ord = Limit \<longrightarrow> heap st' = heap st2"
    by blast
  from p(2) have i2: "engine_inv st2" "incoming_ok ?r st2" and pr: "progress ?r ?st1 st2"
    by (simp_all add: loop_inv_def)
  from pr obtain ts where ts: "trades st2 = trades st @ ts"
    "filled_quantity (heap st2 ! ?r) = filled_quantity ord + sum_list (map trade_quantity ts)"
    "\<forall>t\<in>set ts. if side ord = Buy then trade_of_buy ?r ?st1 t else trade_of_sell ?r ?st1 t"
    by (auto simp: progress_def)
  have "maker_priced st ord t \<and> 0 < trade_quantity t" if "t \<in> set ts" for t
  proof -
    have tt: "if side ord = Buy then trade_of_buy ?r ?st1 t else trade_of_sell ?r ?st1 t"
      using ts(3) that by blast
    then have "0 < trade_quantity t"
      by (auto simp: trade_of_buy_def trade_of_sell_def split: if_splits)
    with maker_priced_of_progress [OF inv tt] show ?thesis by simp
  qed
  moreover have "filled_quantity ord = 0" using f by (simp add: fresh_order_def)
  moreover have "static_eq (heap st @ [ord]) (heap st2)" using pr by (simp add: progress_def)
  ultimately show ?thesis using p ts i2
    by (intro exI [of _ st2] exI [of _ st'] exI [of _ ts]) simp
qed

text \<open>
  C1. Every trade emitted while an incoming order is matched has the price of a resting
  order of the opposite side, the maker, which was in the book when the order came in
  (prices never change), and \<open>buy_order_id\<close> and \<open>sell_order_id\<close> are the ids of the order
  whose side is buy and of the order whose side is sell, whichever of the two was
  incoming.
\<close>

theorem trade_at_maker_price_by_side:
  assumes "valid_commands (cs @ [Submit ord])"
  shows "\<exists>st st' ts. run (newEngine i) cs = Some st \<and> processOrder ord st = Some st'
     \<and> trades st' = trades st @ ts \<and> (\<forall>t\<in>set ts. maker_priced st ord t)"
proof -
  from submit_after_valid [OF assms, of i] obtain st where
    st: "run (newEngine i) cs = Some st" "engine_inv st" "fresh_order ord"
      "orders (orderBook st) (order_id ord) = None" by blast
  from submit_trades [OF st(2,3,4)] obtain st' ts where
    "processOrder ord st = Some st'" "trades st' = trades st @ ts"
    "\<forall>t\<in>set ts. maker_priced st ord t \<and> 0 < trade_quantity t" by blast
  with st(1) show ?thesis by blast
qed








lemma best_has_priority:
  assumes wf: "book_wf (heap st) (orderBook st)"
    and best: "getBestAsk (orderBook st) = Some a \<or> getBestBid (orderBook st) = Some a"
  shows "has_priority st a"
proof -
  let ?h = "heap st" and ?b = "orderBook st"
  have iw: "index_wf ?h ?b"
    and hb: "half_wf ?h Buy (orders ?b) (\<lambda>a. - num a) (bids ?b) (bidPrices ?b)"
    and hs: "half_wf ?h Sell (orders ?b) num (asks ?b) (askPrices ?b)"
    using wf by (simp_all add: book_wf_def)
  from best show ?thesis
  proof
    assume b: "getBestAsk ?b = Some a"
    note a = getBestAsk_wf [OF wf b]
    obtain ps l where lv: "askPrices ?b = price (?h ! a) # ps"
      "asks ?b (price (?h ! a)) = Some (a # l)" using a(1) by blast
    have "num (price (?h ! a)) \<le> num (price (?h ! x))
        \<and> (price (?h ! x) = price (?h ! a) \<longrightarrow> a \<le> x)"
      if x: "resting st x" "side (?h ! x) = Sell" for x
    proof -
      from x(1) have o: "orders ?b (order_id (?h ! x)) = Some x" by (simp add: resting_def)
      from index_wf_D(3) [OF iw o] x(2) obtain l' where
        l': "asks ?b (price (?h ! x)) = Some l'" "x \<in> set l'" by auto
      have "price (?h ! x) \<in> set (askPrices ?b)" using half_wf_level(2) [OF hs l'(1)] .
      moreover have "sorted (map num (askPrices ?b))" using hs by (simp add: half_wf_def)
      ultimately have "num (price (?h ! a)) \<le> num (price (?h ! x))"
        unfolding lv(1) by auto
      moreover have "a \<le> x" if "price (?h ! x) = price (?h ! a)"
      proof -
        from that l' lv(2) have "x \<in> set (a # l)" by simp
        moreover have "sorted (a # l)"
          using half_wf_level(1) [OF hs lv(2)] by (simp add: level_wf_def)
        ultimately show ?thesis by auto
      qed
      ultimately show ?thesis by blast
    qed
    then show ?thesis using a(2,3,4) by (simp add: has_priority_def resting_def)
  next
    assume b: "getBestBid ?b = Some a"
    note a = getBestBid_wf [OF wf b]
    obtain ps l where lv: "bidPrices ?b = price (?h ! a) # ps"
      "bids ?b (price (?h ! a)) = Some (a # l)" using a(1) by blast
    have "num (price (?h ! x)) \<le> num (price (?h ! a))
        \<and> (price (?h ! x) = price (?h ! a) \<longrightarrow> a \<le> x)"
      if x: "resting st x" "side (?h ! x) = Buy" for x
    proof -
      from x(1) have o: "orders ?b (order_id (?h ! x)) = Some x" by (simp add: resting_def)
      from index_wf_D(3) [OF iw o] x(2) obtain l' where
        l': "bids ?b (price (?h ! x)) = Some l'" "x \<in> set l'" by auto
      have "price (?h ! x) \<in> set (bidPrices ?b)" using half_wf_level(2) [OF hb l'(1)] .
      moreover have "sorted (map (\<lambda>a. - num a) (bidPrices ?b))" using hb by (simp add: half_wf_def)
      ultimately have "num (price (?h ! x)) \<le> num (price (?h ! a))"
        unfolding lv(1) by auto
      moreover have "a \<le> x" if "price (?h ! x) = price (?h ! a)"
      proof -
        from that l' lv(2) have "x \<in> set (a # l)" by simp
        moreover have "sorted (a # l)"
          using half_wf_level(1) [OF hb lv(2)] by (simp add: level_wf_def)
        ultimately show ?thesis by auto
      qed
      ultimately show ?thesis by blast
    qed
    then show ?thesis using a(2,3,4) by (simp add: has_priority_def resting_def)
  qed
qed


theorem trade_at_maker_price_by_side_witness:
  "valid_commands (scenario_one_ask @ [Submit (limit_order ''B'' Buy 70100 1)])
   \<and> (\<exists>st st' ts. run (newEngine ''BTC-USD'') scenario_one_ask = Some st
         \<and> processOrder (limit_order ''B'' Buy 70100 1) st = Some st'
         \<and> trades st' = trades st @ ts
         \<and> (\<forall>t\<in>set ts. maker_priced st (limit_order ''B'' Buy 70100 1) t))
   \<and> map_option trades
        (run (newEngine ''BTC-USD'') (scenario_one_ask @ [Submit (limit_order ''B'' Buy 70100 1)]))
      = Some [\<lparr>buy_order_id = ''B'', sell_order_id = ''A'', trade_instrument = ''BTC-USD'',
               trade_price = Some 70000, trade_quantity = 1/2\<rparr>]"
proof -
  have v: "valid_commands (scenario_one_ask @ [Submit (limit_order ''B'' Buy 70100 1)])"
    by (simp add: valid_commands_def scenario_one_ask_def limit_order_def fresh_order_def)
  have e: "map_option trades
        (run (newEngine ''BTC-USD'') (scenario_one_ask @ [Submit (limit_order ''B'' Buy 70100 1)]))
      = Some [\<lparr>buy_order_id = ''B'', sell_order_id = ''A'', trade_instrument = ''BTC-USD'',
               trade_price = Some 70000, trade_quantity = 1/2\<rparr>]"
    by code_simp
  from trade_at_maker_price_by_side [OF v, of "''BTC-USD''"] v e show ?thesis by blast
qed




section \<open>Idempotent submission and cancellation through the service\<close>

lemma db_getOrder_id:
  assumes "db_wf ex" "db_getOrder oid ex = Some row"
  shows "order_id row = oid"
  using assms map_of_SomeD [of "db_orders ex" oid row]
  by (auto simp: db_wf_def db_getOrder_def list_all_iff)

text \<open>
  C9. A submit call whose idempotency key is a non-empty string that the cache resolves to
  a non-empty order id whose row is in the record store returns that row as the order,
  with that order id, no trades and an empty book, and leaves the whole state as it was:
  the orders, trades and events tables, the cache, every engine and the published
  messages.
\<close>

theorem idempotent_submit_returns_prior_order:
  assumes "k \<noteq> []" and "idempotency ex k = Some oid" and "oid \<noteq> []"
    and "db_getOrder oid ex = Some row" and "db_wf ex"
  shows "submitOrder orderData (Some k) uuid now ex
           = Some (Inr \<lparr>result_order = fromDB row, result_trades = [],
                        result_orderbook = None\<rparr>, ex)
         \<and> order_id (fromDB row) = oid"
  using assms db_getOrder_id [OF assms(5,4)]
  by (simp add: submitOrder_def idempotent_hit_def fromDB_def)

text \<open>
  C6 does not hold of the code. When the order is not in the engine's index,
  \<open>MatchingEngine.cancelOrder\<close> throws and \<open>ExchangeService.cancelOrder\<close> lets the
  exception through: the caller gets ``Order not found'' whatever the record store holds,
  and the store, the events and the published messages are as before. The branch that
  would consult the store is never reached.
\<close>

theorem service_cancel_not_resident_throws:
  assumes "orders (orderBook (fst (getEngine (or_default i defaultInstrument) ex))) oid = None"
  shows "fst (service_cancelOrder oid i ex) = Inl (OrderNotFound oid)
     \<and> db_orders (snd (service_cancelOrder oid i ex)) = db_orders ex
     \<and> db_events (snd (service_cancelOrder oid i ex)) = db_events ex
     \<and> outbox (snd (service_cancelOrder oid i ex)) = outbox ex"
  using assms
  by (auto simp: service_cancelOrder_def cancelOrder_def getEngine_def Let_def
      split: option.splits prod.splits)

theorem service_cancel_not_resident_throws_witness:
  "orders (orderBook (fst (getEngine (or_default None defaultInstrument)
       store_with_open_order))) ''order-1'' = None
   \<and> db_getOrder ''order-1'' store_with_open_order = Some example_order
   \<and> status example_order = Open
   \<and> fst (service_cancelOrder ''order-1'' None store_with_open_order)
       = Inl (OrderNotFound ''order-1'')
   \<and> db_orders (snd (service_cancelOrder ''order-1'' None store_with_open_order))
       = [(''order-1'', example_order)]"
proof -
  have h: "orders (orderBook (fst (getEngine (or_default None defaultInstrument)
       store_with_open_order))) ''order-1'' = None"
    by (simp add: getEngine_def or_default_def store_with_open_order_def newExchange_def
        newEngine_def newOrderBook_def)
  have d: "db_getOrder ''order-1'' store_with_open_order = Some example_order"
    "status example_order = Open"
    "db_orders store_with_open_order = [(''order-1'', example_order)]"
    by (simp_all add: db_getOrder_def store_with_open_order_def newExchange_def
        example_order_def)
  from service_cancel_not_resident_throws [OF h] h d show ?thesis by simp
qed

lemma first_submit_state:
  "map_option (\<lambda>(r, ex). (idempotency ex ''K'', db_getOrder ''uuid-1'' ex, db_wf ex,
       map_sum id result_order r)) first_submit
     = Some (Some ''uuid-1'', Some submitted_row, True, Inr submitted_row)"
  unfolding first_submit_def submitted_row_def by code_simp

theorem idempotent_resubmit_witness:
  "\<exists>res ex. first_submit = Some (Inr res, ex) \<and> result_order res = submitted_row
     \<and> submitOrder example_data (Some ''K'') ''uuid-2'' 1 ex
         = Some (Inr \<lparr>result_order = fromDB submitted_row, result_trades = [],
                      result_orderbook = None\<rparr>, ex)
     \<and> order_id (fromDB submitted_row) = ''uuid-1''"
proof -
  from first_submit_state obtain r ex where
    f: "first_submit = Some (r, ex)" "idempotency ex ''K'' = Some ''uuid-1''"
      "db_getOrder ''uuid-1'' ex = Some submitted_row" "db_wf ex"
      "map_sum id result_order r = Inr submitted_row"
    by (cases first_submit) auto
  from f(5) obtain res where r: "r = Inr res" "result_order res = submitted_row"
    by (cases r) auto
  have k: "''K'' \<noteq> []" "''uuid-1'' \<noteq> []" by simp_all
  from idempotent_submit_returns_prior_order [OF k(1) f(2) k(2) f(3) f(4),
      of example_data "''uuid-2''" 1] f(1) r
  show ?thesis by blast
qed

lemma service_cancel_twice:
  "map_option (\<lambda>(r, ex).
      (map_sum id status (fst (service_cancelOrder ''uuid-1'' None ex)),
       fst (service_cancelOrder ''uuid-1'' None (snd (service_cancelOrder ''uuid-1'' None ex))),
       map (status \<circ> snd) (db_orders (snd (service_cancelOrder ''uuid-1'' None ex)))))
     first_submit
   = Some (Inr Cancelled, Inl (OrderNotFound ''uuid-1''), [Cancelled])"
  unfolding first_submit_def by code_simp


section \<open>Recovery of the default instrument's book\<close>

lemma book_wf_ladder:
  assumes "book_wf h b"
  shows "half_wf h sd (orders b) (ladder_key sd) (ladder sd b) (ladder_prices sd b)"
  using assms by (cases sd) (simp_all add: book_wf_def ladder_def ladder_prices_def ladder_key_def)

lemma index_wf_ladder:
  assumes "index_wf h b" "orders b oid = Some x"
  shows "\<exists>l. ladder (side (h ! x)) b (price (h ! x)) = Some l \<and> x \<in> set l"
  using index_wf_D(3) [OF assms] by (cases "side (h ! x)") (simp_all add: ladder_def)

lemma resting_refs_set:
  assumes "index_wf (heap st) (orderBook st)"
  shows "set (resting_refs st) = {x. orders (orderBook st) (order_id (heap st ! x)) = Some x}"
  using assms index_wf_D(1) by (auto simp: resting_refs_def)

lemma resting_refs_sorted: "sorted (resting_refs st)" "distinct (resting_refs st)"
  by (auto simp: resting_refs_def intro: sorted_wrt_filter)

lemma half_wf_dom:
  assumes "half_wf h sd idx key m ps" "p \<in> set ps"
  shows "\<exists>l. m p = Some l"
proof -
  have "p \<in> dom m" using assms by (simp add: half_wf_def)
  then show ?thesis by blast
qed

lemma level_is_filter:
  assumes wf: "book_wf (heap st) (orderBook st)"
    and lv: "ladder sd (orderBook st) p = Some l"
  shows "l = filter (\<lambda>x. side (heap st ! x) = sd \<and> price (heap st ! x) = p) (resting_refs st)"
proof (rule sorted_distinct_set_unique)
  let ?h = "heap st" and ?b = "orderBook st"
  have iw: "index_wf ?h ?b" using wf by (simp add: book_wf_def)
  note hw = book_wf_ladder [OF wf, of sd]
  have lw: "level_wf ?h sd (orders ?b) p l" using half_wf_level(1) [OF hw lv] .
  show "sorted l" "distinct l" using lw by (simp_all add: level_wf_def)
  show "sorted (filter (\<lambda>x. side (?h ! x) = sd \<and> price (?h ! x) = p) (resting_refs st))"
    "distinct (filter (\<lambda>x. side (?h ! x) = sd \<and> price (?h ! x) = p) (resting_refs st))"
    using resting_refs_sorted [of st] by (simp_all add: sorted_wrt_filter)
  show "set l = set (filter (\<lambda>x. side (?h ! x) = sd \<and> price (?h ! x) = p) (resting_refs st))"
  proof (intro set_eqI iffI)
    fix x assume "x \<in> set l"
    with lw show "x \<in> set (filter (\<lambda>x. side (?h ! x) = sd \<and> price (?h ! x) = p) (resting_refs st))"
      by (simp add: level_wf_def resting_refs_set [OF iw])
  next
    fix x assume "x \<in> set (filter (\<lambda>x. side (?h ! x) = sd \<and> price (?h ! x) = p) (resting_refs st))"
    then have x: "orders ?b (order_id (?h ! x)) = Some x" "side (?h ! x) = sd" "price (?h ! x) = p"
      by (simp_all add: resting_refs_set [OF iw])
    from index_wf_ladder [OF iw x(1)] x(2,3) lv show "x \<in> set l" by simp
  qed
qed

lemma level_orders_canon:
  assumes wf: "book_wf (heap st) (orderBook st)"
    and lv: "ladder sd (orderBook st) p = Some l"
  shows "map (\<lambda>x. heap st ! x) l = filter (\<lambda>ord. side ord = sd \<and> price ord = p) (resting_orders st)"
  unfolding level_is_filter [OF wf lv] resting_orders_def by (simp add: filter_map comp_def)

lemma ladder_prices_set:
  assumes wf: "book_wf (heap st) (orderBook st)"
  shows "set (ladder_prices sd (orderBook st))
     = price ` {ord \<in> set (resting_orders st). side ord = sd}"
proof (intro set_eqI iffI)
  let ?h = "heap st" and ?b = "orderBook st"
  have iw: "index_wf ?h ?b" using wf by (simp add: book_wf_def)
  note hw = book_wf_ladder [OF wf, of sd]
  fix p
  {
    assume "p \<in> set (ladder_prices sd ?b)"
    then obtain l where l: "ladder sd ?b p = Some l" using half_wf_dom [OF hw] by blast
    have lw: "level_wf ?h sd (orders ?b) p l" using half_wf_level(1) [OF hw l] .
    then obtain x where x: "x \<in> set l" by (cases l) (auto simp: level_wf_def)
    with lw have "orders ?b (order_id (?h ! x)) = Some x" "side (?h ! x) = sd" "price (?h ! x) = p"
      by (simp_all add: level_wf_def)
    then have "?h ! x \<in> set (resting_orders st)" "side (?h ! x) = sd" "price (?h ! x) = p"
      by (simp_all add: resting_orders_def resting_refs_set [OF iw])
    then show "p \<in> price ` {ord \<in> set (resting_orders st). side ord = sd}" by force
  }
  {
    assume "p \<in> price ` {ord \<in> set (resting_orders st). side ord = sd}"
    then obtain x where x: "orders ?b (order_id (?h ! x)) = Some x" "side (?h ! x) = sd"
      "price (?h ! x) = p"
      by (auto simp: resting_orders_def resting_refs_set [OF iw])
    from index_wf_ladder [OF iw x(1)] x(2,3) obtain l where "ladder sd ?b p = Some l" by auto
    then show "p \<in> set (ladder_prices sd ?b)" using half_wf_level(2) [OF hw] by blast
  }
qed

lemma ladder_key_inj: "inj_on (ladder_key sd) {p. p \<noteq> None}"
  by (auto simp: inj_on_def ladder_key_def)

lemma ladder_prices_unique:
  assumes wf: "book_wf (heap st) (orderBook st)" and wf': "book_wf (heap st') (orderBook st')"
    and eq: "resting_orders st' = resting_orders st"
    and pr: "list_all (\<lambda>ord. price ord \<noteq> None) (resting_orders st)"
  shows "ladder_prices sd (orderBook st') = ladder_prices sd (orderBook st)"
proof (rule map_sorted_distinct_set_unique [where f = "ladder_key sd"])
  note s = ladder_prices_set [OF wf, of sd] ladder_prices_set [OF wf', of sd]
  show "set (ladder_prices sd (orderBook st')) = set (ladder_prices sd (orderBook st))"
    unfolding s eq ..
  have sub: "set (ladder_prices sd (orderBook st)) \<subseteq> {p. p \<noteq> None}"
    unfolding s(1) using pr by (auto simp: list_all_iff)
  then have sub': "set (ladder_prices sd (orderBook st')) \<subseteq> {p. p \<noteq> None}"
    unfolding s eq .
  show "inj_on (ladder_key sd)
     (set (ladder_prices sd (orderBook st')) \<union> set (ladder_prices sd (orderBook st)))"
    using sub sub' by (intro inj_on_subset [OF ladder_key_inj]) auto
  note hw = book_wf_ladder [OF wf, of sd] book_wf_ladder [OF wf', of sd]
  show "sorted (map (ladder_key sd) (ladder_prices sd (orderBook st')))"
    "sorted (map (ladder_key sd) (ladder_prices sd (orderBook st)))"
    using hw by (simp_all add: half_wf_def)
  show "distinct (map (ladder_key sd) (ladder_prices sd (orderBook st')))"
    using hw(2) sub' by (auto simp: half_wf_def distinct_map intro: inj_on_subset [OF ladder_key_inj])
  show "distinct (map (ladder_key sd) (ladder_prices sd (orderBook st)))"
    using hw(1) sub by (auto simp: half_wf_def distinct_map intro: inj_on_subset [OF ladder_key_inj])
qed

lemma ladder_view_canon:
  assumes wf: "book_wf (heap st) (orderBook st)"
  shows "ladder_view sd st
     = map (\<lambda>p. (p, filter (\<lambda>ord. side ord = sd \<and> price ord = p) (resting_orders st)))
           (ladder_prices sd (orderBook st))"
  unfolding ladder_view_def
proof (rule map_cong [OF refl])
  fix p assume "p \<in> set (ladder_prices sd (orderBook st))"
  then obtain l where l: "ladder sd (orderBook st) p = Some l"
    using half_wf_dom [OF book_wf_ladder [OF wf, of sd]] by blast
  with level_orders_canon [OF wf l]
  show "(p, map (\<lambda>x. heap st ! x) (case ladder sd (orderBook st) p of None \<Rightarrow> [] | Some l \<Rightarrow> l))
      = (p, filter (\<lambda>ord. side ord = sd \<and> price ord = p) (resting_orders st))" by simp
qed

lemma ladder_view_unique:
  assumes wf: "book_wf (heap st) (orderBook st)" and wf': "book_wf (heap st') (orderBook st')"
    and eq: "resting_orders st' = resting_orders st"
    and pr: "list_all (\<lambda>ord. price ord \<noteq> None) (resting_orders st)"
  shows "ladder_view sd st' = ladder_view sd st"
  unfolding ladder_view_canon [OF wf] ladder_view_canon [OF wf']
    ladder_prices_unique [OF wf wf' eq pr] eq ..

lemma snapshot_side_levels:
  assumes "\<forall>p\<in>set ps. m p \<noteq> None"
  shows "snapshot_side h m running ps
     = Some (snapshot_levels running
               (map (\<lambda>p. (p, map (\<lambda>x. h ! x) (case m p of None \<Rightarrow> [] | Some l \<Rightarrow> l))) ps))"
  using assms
proof (induction ps arbitrary: running)
  case Nil
  then show ?case by simp
next
  case (Cons p ps)
  from Cons.prems obtain l where l: "m p = Some l" by auto
  have f: "foldl (\<lambda>acc r. acc + remaining_quantity (h ! r)) 0 l
      = foldl (\<lambda>acc ord. acc + remaining_quantity ord) 0 (map (\<lambda>x. h ! x) l)"
    by (simp add: foldl_map)
  from Cons.prems have "\<forall>p\<in>set ps. m p \<noteq> None" by simp
  from Cons.IH [OF this] l f show ?case by (simp add: Let_def)
qed

lemma getOrderBookSnapshot_view:
  assumes wf: "book_wf (heap st) (orderBook st)"
  shows "getOrderBookSnapshot n st
     = Some \<lparr>snap_bids = snapshot_levels 0 (take n (ladder_view Buy st)),
             snap_asks = snapshot_levels 0 (take n (ladder_view Sell st))\<rparr>"
proof -
  have d: "\<forall>p\<in>set (take n (ladder_prices sd (orderBook st))). ladder sd (orderBook st) p \<noteq> None"
    for sd
    using half_wf_dom [OF book_wf_ladder [OF wf, of sd]] by (auto dest: in_set_takeD)
  show ?thesis
    unfolding getOrderBookSnapshot_def getSnapshot_def
    using snapshot_side_levels [OF d [of Buy], of "heap st" 0]
      snapshot_side_levels [OF d [of Sell], of "heap st" 0]
    by (simp add: ladder_view_def ladder_def ladder_prices_def take_map)
qed

lemma best_order_view:
  assumes wf: "book_wf (heap st) (orderBook st)"
  shows "best_bid_order st = head_order (ladder_view Buy st)"
    and "best_ask_order st = head_order (ladder_view Sell st)"
proof -
  have d: "\<exists>l. ladder sd (orderBook st) p = Some l"
    if "p \<in> set (ladder_prices sd (orderBook st))" for sd p
    using half_wf_dom [OF book_wf_ladder [OF wf, of sd] that] .
  show "best_bid_order st = head_order (ladder_view Buy st)"
  proof (cases "bidPrices (orderBook st)")
    case Nil
    then show ?thesis
      by (simp add: best_bid_order_def getBestBid_def head_order_def ladder_view_def
          ladder_prices_def)
  next
    case (Cons p ps)
    with d [of p Buy] obtain l where "bids (orderBook st) p = Some l"
      by (auto simp: ladder_prices_def ladder_def)
    with Cons show ?thesis
      by (cases l) (simp_all add: best_bid_order_def getBestBid_def head_order_def
          ladder_view_def ladder_prices_def ladder_def)
  qed
  show "best_ask_order st = head_order (ladder_view Sell st)"
  proof (cases "askPrices (orderBook st)")
    case Nil
    then show ?thesis
      by (simp add: best_ask_order_def getBestAsk_def head_order_def ladder_view_def
          ladder_prices_def)
  next
    case (Cons p ps)
    with d [of p Sell] obtain l where "asks (orderBook st) p = Some l"
      by (auto simp: ladder_prices_def ladder_def)
    with Cons show ?thesis
      by (cases l) (simp_all add: best_ask_order_def getBestAsk_def head_order_def
          ladder_view_def ladder_prices_def ladder_def)
  qed
qed

lemma same_resting_same_book:
  assumes wf: "book_wf (heap st) (orderBook st)" and wf': "book_wf (heap st') (orderBook st')"
    and eq: "resting_orders st' = resting_orders st"
    and pr: "list_all (\<lambda>ord. price ord \<noteq> None) (resting_orders st)"
  shows "getOrderBookSnapshot n st' = getOrderBookSnapshot n st"
    and "best_bid_order st' = best_bid_order st"
    and "best_ask_order st' = best_ask_order st"
    and "ladder_view sd st' = ladder_view sd st"
  unfolding getOrderBookSnapshot_view [OF wf] getOrderBookSnapshot_view [OF wf']
    best_order_view [OF wf] best_order_view [OF wf']
    ladder_view_unique [OF wf wf' eq pr]
  by simp_all

lemma all_resting_orders:
  assumes "all_resting st"
  shows "resting_orders st = heap st"
proof -
  have "resting_refs st = [0..<length (heap st)]"
    unfolding resting_refs_def using assms by (auto simp: all_resting_def filter_id_conv)
  then show ?thesis by (simp add: resting_orders_def map_nth)
qed

lemma load_order_inv:
  assumes wf: "book_wf (heap e) (orderBook e)" and ar: "all_resting e"
    and op: "is_open row" and nin: "order_id row \<notin> set (map order_id (heap e))"
  shows "book_wf (heap (load_order e row)) (orderBook (load_order e row))"
    and "all_resting (load_order e row)"
    and "heap (load_order e row) = heap e @ [row]"
    and "engine_instrument (load_order e row) = engine_instrument e"
proof -
  let ?h = "heap e @ [row]" and ?r = "length (heap e)"
  have lo: "load_order e row = e\<lparr>heap := ?h, orderBook := addOrder ?h ?r (orderBook e)\<rparr>"
    using op by (simp add: load_order_def fromDB_def Let_def)
  have iw: "index_wf (heap e) (orderBook e)" using wf by (simp add: book_wf_def)
  have fresh: "orders (orderBook e) (order_id (?h ! ?r)) = None"
  proof (rule ccontr)
    assume "orders (orderBook e) (order_id (?h ! ?r)) \<noteq> None"
    then obtain x where "orders (orderBook e) (order_id row) = Some x" by auto
    from index_wf_D(1,2) [OF iw this] have "x < length (heap e)"
      "order_id (heap e ! x) = order_id row" by simp_all
    then have "order_id row \<in> order_id ` set (heap e)" by (metis imageI nth_mem)
    with nin show False by simp
  qed
  show "book_wf (heap (load_order e row)) (orderBook (load_order e row))"
    unfolding lo using addOrder_wf [OF book_wf_append [OF wf, of row] _ fresh] by simp
  show "heap (load_order e row) = heap e @ [row]"
    "engine_instrument (load_order e row) = engine_instrument e" by (simp_all add: lo)
  show "all_resting (load_order e row)"
    unfolding all_resting_def lo
  proof (intro allI impI)
    fix x assume "x < length (heap (e\<lparr>heap := ?h, orderBook := addOrder ?h ?r (orderBook e)\<rparr>))"
    then have "x < ?r \<or> x = ?r" by auto
    then show "orders (orderBook (e\<lparr>heap := ?h, orderBook := addOrder ?h ?r (orderBook e)\<rparr>))
        (order_id (heap (e\<lparr>heap := ?h, orderBook := addOrder ?h ?r (orderBook e)\<rparr>) ! x)) = Some x"
    proof
      assume x: "x < ?r"
      then have "heap e ! x \<in> set (heap e)" by simp
      then have "order_id (heap e ! x) \<in> order_id ` set (heap e)" by (rule imageI)
      then have "order_id (heap e ! x) \<noteq> order_id row" using nin by auto
      with x ar show ?thesis by (simp add: all_resting_def nth_append)
    next
      assume "x = ?r"
      then show ?thesis by simp
    qed
  qed
qed

lemma load_orders_inv:
  assumes "book_wf (heap e) (orderBook e)" "all_resting e"
    and "list_all is_open rows" and "distinct (map order_id (heap e) @ map order_id rows)"
  shows "book_wf (heap (foldl load_order e rows)) (orderBook (foldl load_order e rows))
     \<and> all_resting (foldl load_order e rows)
     \<and> heap (foldl load_order e rows) = heap e @ rows
     \<and> engine_instrument (foldl load_order e rows) = engine_instrument e"
  using assms
proof (induction rows arbitrary: e)
  case Nil
  then show ?case by simp
next
  case (Cons row rows)
  have op: "is_open row" and nin: "order_id row \<notin> set (map order_id (heap e))"
    using Cons.prems(3,4) by auto
  note l = load_order_inv [OF Cons.prems(1,2) op nin]
  have "list_all is_open rows"
    "distinct (map order_id (heap (load_order e row)) @ map order_id rows)"
    using Cons.prems(3,4) by (auto simp: l(3))
  from Cons.IH [OF l(1,2) this] have
    "book_wf (heap (foldl load_order (load_order e row) rows))
       (orderBook (foldl load_order (load_order e row) rows))"
    "all_resting (foldl load_order (load_order e row) rows)"
    "heap (foldl load_order (load_order e row) rows) = heap (load_order e row) @ rows"
    "engine_instrument (foldl load_order (load_order e row) rows)
       = engine_instrument (load_order e row)" by blast+
  then show ?case using l(3,4) by simp
qed

lemma getOpenOrders_props:
  assumes "db_wf ex" and "distinct (map fst (db_orders ex))"
  shows "list_all is_open (getOpenOrders i ex)"
    and "distinct (map order_id (getOpenOrders i ex))"
    and "sorted (map created_at (getOpenOrders i ex))"
    and "set (getOpenOrders i ex)
       = {row \<in> snd ` set (db_orders ex). instrument row = i \<and> is_open row}"
proof -
  let ?rows = "map snd (db_orders ex)"
  let ?P = "\<lambda>row. instrument row = i \<and> (status row = Open \<or> status row = PartiallyFilled)"
  have "\<forall>x\<in>set (db_orders ex). (order_id \<circ> snd) x = fst x"
    using assms(1) by (auto simp: db_wf_def list_all_iff)
  then have "map (order_id \<circ> snd) (db_orders ex) = map fst (db_orders ex)"
    by (intro map_cong) auto
  then have d: "distinct (map order_id ?rows)" using assms(2) by (simp only: map_map)
  then have "distinct (map order_id (filter ?P ?rows))" by (rule distinct_map_filter)
  then have "distinct (filter ?P ?rows)" "inj_on order_id (set (filter ?P ?rows))"
    by (simp_all add: distinct_map)
  then show "distinct (map order_id (getOpenOrders i ex))"
    by (simp add: getOpenOrders_def distinct_map)
  show "list_all is_open (getOpenOrders i ex)"
    by (auto simp: getOpenOrders_def list_all_iff is_open_def)
  show "sorted (map created_at (getOpenOrders i ex))"
    by (simp add: getOpenOrders_def)
  show "set (getOpenOrders i ex)
       = {row \<in> snd ` set (db_orders ex). instrument row = i \<and> is_open row}"
    by (auto simp: getOpenOrders_def is_open_def)
qed

lemma initialize_fresh:
  assumes "engines ex = Map.empty"
  shows "engines (initialize ex)
     = [defaultInstrument \<mapsto>
          foldl load_order (newEngine defaultInstrument) (getOpenOrders defaultInstrument ex)]"
  using assms
  by (simp add: initialize_def loadOpenOrders_def getEngine_def getOpenOrders_def Let_def)

lemma loaded_engine:
  assumes "db_wf ex" and "distinct (map fst (db_orders ex))"
  defines "eng \<equiv> foldl load_order (newEngine defaultInstrument)
                     (getOpenOrders defaultInstrument ex)"
  shows "book_wf (heap eng) (orderBook eng)" and "heap eng = getOpenOrders defaultInstrument ex"
    and "resting_orders eng = heap eng"
proof -
  let ?e = "newEngine defaultInstrument"
  note g = getOpenOrders_props [OF assms(1,2), of defaultInstrument]
  have "book_wf (heap ?e) (orderBook ?e)"
    using engine_inv_new [of defaultInstrument] by (simp add: engine_inv_def)
  moreover have "all_resting ?e" by (simp add: all_resting_def newEngine_def)
  moreover have "distinct (map order_id (heap ?e) @ map order_id (getOpenOrders defaultInstrument ex))"
    using g(2) by (simp add: newEngine_def)
  ultimately have l: "book_wf (heap eng) (orderBook eng) \<and> all_resting eng
     \<and> heap eng = heap ?e @ getOpenOrders defaultInstrument ex
     \<and> engine_instrument eng = engine_instrument ?e"
    unfolding eng_def using g(1) by (intro load_orders_inv)
  then show "book_wf (heap eng) (orderBook eng)" by blast
  from l show "heap eng = getOpenOrders defaultInstrument ex" by (simp add: newEngine_def)
  from l show "resting_orders eng = heap eng" by (blast intro: all_resting_orders)
qed

text \<open>
  C8, as stated, fails: \<open>_loadOpenOrders\<close> loads the default instrument only. A store
  whose only open order is on another instrument gets no engine for that instrument.
\<close>

theorem recovery_engine_per_instrument_counterexample:
  "getOpenOrders ''ETH-USD'' store_with_eth_order = [eth_order]
   \<and> engines (initialize store_with_eth_order) ''ETH-USD'' = None"
  by (simp add: getOpenOrders_def store_with_eth_order_def newExchange_def eth_order_def
      initialize_def loadOpenOrders_def getEngine_def defaultInstrument_def Let_def)

text \<open>
  C8, amended. Started with no engine and a store whose rows are keyed by their own
  distinct order ids, the service creates one engine, for the default instrument. Its
  objects are exactly the store's rows of that instrument with status \<open>open\<close> or
  \<open>partially_filled\<close>, in ascending \<open>created_at\<close>, as recorded (so with their
  \<open>filled_quantity\<close>), and all of them rest in the book; the best of each side is the
  earliest of them at the best price. If those rows, in that order, are the resting
  orders, each with a price, of a book reached before shutdown, in arrival order, then the
  rebuilt book has the same snapshot at every depth, the same best bid and best ask order
  and the same levels.
\<close>

theorem recovery_rebuilds_default_book:
  assumes "engines ex = Map.empty" and "db_wf ex" and "distinct (map fst (db_orders ex))"
  shows "\<exists>eng. engines (initialize ex) = [defaultInstrument \<mapsto> eng]
     \<and> heap eng = getOpenOrders defaultInstrument ex
     \<and> resting_orders eng = heap eng
     \<and> sorted (map created_at (heap eng))
     \<and> set (heap eng) = {row \<in> snd ` set (db_orders ex).
                            instrument row = defaultInstrument \<and> is_open row}
     \<and> (\<forall>a. getBestAsk (orderBook eng) = Some a \<or> getBestBid (orderBook eng) = Some a
            \<longrightarrow> has_priority eng a)
     \<and> (\<forall>cs st. valid_commands cs \<and> run (newEngine defaultInstrument) cs = Some st
            \<and> list_all (\<lambda>ord. price ord \<noteq> None) (resting_orders st)
            \<and> getOpenOrders defaultInstrument ex = resting_orders st \<longrightarrow>
              (\<forall>n. getOrderBookSnapshot n eng = getOrderBookSnapshot n st)
              \<and> best_bid_order eng = best_bid_order st
              \<and> best_ask_order eng = best_ask_order st
              \<and> (\<forall>sd. ladder_view sd eng = ladder_view sd st))"
proof -
  define eng where "eng = foldl load_order (newEngine defaultInstrument)
                     (getOpenOrders defaultInstrument ex)"
  note l = loaded_engine [OF assms(2,3), folded eng_def]
  note g = getOpenOrders_props [OF assms(2,3), of defaultInstrument]
  have 1: "engines (initialize ex) = [defaultInstrument \<mapsto> eng]"
    unfolding eng_def using assms(1) by (rule initialize_fresh)
  have 2: "\<forall>a. getBestAsk (orderBook eng) = Some a \<or> getBestBid (orderBook eng) = Some a
            \<longrightarrow> has_priority eng a"
    using best_has_priority [OF l(1)] by blast
  have 3: "(\<forall>n. getOrderBookSnapshot n eng = getOrderBookSnapshot n st)
              \<and> best_bid_order eng = best_bid_order st
              \<and> best_ask_order eng = best_ask_order st
              \<and> (\<forall>sd. ladder_view sd eng = ladder_view sd st)"
    if v: "valid_commands cs" and r: "run (newEngine defaultInstrument) cs = Some st"
      and pr: "list_all (\<lambda>ord. price ord \<noteq> None) (resting_orders st)"
      and eq: "getOpenOrders defaultInstrument ex = resting_orders st" for cs st
  proof -
    from run_valid [OF v, of defaultInstrument] r have "engine_inv st" by simp
    then have wf: "book_wf (heap st) (orderBook st)" by (simp add: engine_inv_def)
    have e: "resting_orders eng = resting_orders st" using l(2,3) eq by simp
    from same_resting_same_book [OF wf l(1) e pr] show ?thesis by blast
  qed
  show ?thesis
    using 1 2 3 l(2,3) g(3,4) by (intro exI [of _ eng]) (simp only: l(2), blast)
qed

theorem recovery_rebuilds_default_book_witness:
  "engines recovery_store = Map.empty \<and> db_wf recovery_store
   \<and> distinct (map fst (db_orders recovery_store)) \<and> valid_commands recovery_commands
   \<and> (\<exists>st eng. run (newEngine defaultInstrument) recovery_commands = Some st
         \<and> engines (initialize recovery_store) = [defaultInstrument \<mapsto> eng]
         \<and> heap eng = recovery_rows \<and> resting_orders st = recovery_rows
         \<and> getOrderBookSnapshot 20 eng = getOrderBookSnapshot 20 st
         \<and> best_bid_order eng = best_bid_order st
         \<and> best_ask_order eng = best_ask_order st)
   \<and> map_option (getOrderBookSnapshot 20) (run (newEngine defaultInstrument) recovery_commands)
       = Some (Some \<lparr>snap_bids = [\<lparr>level_price = Some 70000, level_quantity = 1/2,
                                     level_cumulative = 1/2\<rparr>],
                      snap_asks = [\<lparr>level_price = Some 70100, level_quantity = 1,
                                     level_cumulative = 1\<rparr>]\<rparr>)"
proof -
  have h: "engines recovery_store = Map.empty" "db_wf recovery_store"
    "distinct (map fst (db_orders recovery_store))"
    by (simp_all add: recovery_store_def newExchange_def db_wf_def limit_order_def)
  have v: "valid_commands recovery_commands"
    by (simp add: valid_commands_def recovery_commands_def limit_order_def fresh_order_def)
  have g: "getOpenOrders defaultInstrument recovery_store = recovery_rows"
    by code_simp
  have e: "map_option (\<lambda>st. (resting_orders st,
        list_all (\<lambda>ord. price ord \<noteq> None) (resting_orders st)))
      (run (newEngine defaultInstrument) recovery_commands) = Some (recovery_rows, True)"
    by code_simp
  have s: "map_option (getOrderBookSnapshot 20)
        (run (newEngine defaultInstrument) recovery_commands)
       = Some (Some \<lparr>snap_bids = [\<lparr>level_price = Some 70000, level_quantity = 1/2,
                                     level_cumulative = 1/2\<rparr>],
                      snap_asks = [\<lparr>level_price = Some 70100, level_quantity = 1,
                                     level_cumulative = 1\<rparr>]\<rparr>)"
    by code_simp
  from e obtain st where st: "run (newEngine defaultInstrument) recovery_commands = Some st"
    "resting_orders st = recovery_rows"
    "list_all (\<lambda>ord. price ord \<noteq> None) (resting_orders st)"
    by (cases "run (newEngine defaultInstrument) recovery_commands") auto
  from recovery_rebuilds_default_book [OF h] obtain eng where
    eng: "engines (initialize recovery_store) = [defaultInstrument \<mapsto> eng]"
      "heap eng = getOpenOrders defaultInstrument recovery_store"
      "\<forall>cs st. valid_commands cs \<and> run (newEngine defaultInstrument) cs = Some st
            \<and> list_all (\<lambda>ord. price ord \<noteq> None) (resting_orders st)
            \<and> getOpenOrders defaultInstrument recovery_store = resting_orders st \<longrightarrow>
              (\<forall>n. getOrderBookSnapshot n eng = getOrderBookSnapshot n st)
              \<and> best_bid_order eng = best_bid_order st
              \<and> best_ask_order eng = best_ask_order st
              \<and> (\<forall>sd. ladder_view sd eng = ladder_view sd st)"
    by blast
  from eng(3) v st g have "getOrderBookSnapshot 20 eng = getOrderBookSnapshot 20 st"
    "best_bid_order eng = best_bid_order st" "best_ask_order eng = best_ask_order st"
    by auto
  with h v st eng(1,2) g s show ?thesis by auto
qed

end
